theory Spec2Isabelle
  imports Main "HOL-Library.Sublist"
begin

section \<open>Strings\<close>

text \<open>
  A Python \<open>str\<close> is modelled as a \<open>string\<close> whose characters are code points below 256
  (Latin-1), so \<open>length\<close> is Python's \<open>len\<close>. The character classes below are the ones
  \<open>str.split\<close>, \<open>str.strip\<close> and the \<open>re\<close> module use on such code points:
  \<open>is_space\<close> is \<open>str.isspace\<close> and the class \<open>\s\<close>, \<open>is_digit\<close> is \<open>\d\<close>,
  \<open>is_upper\<close> is \<open>[A-Z]\<close> and \<open>is_word_char\<close> is \<open>\w\<close>.
\<close>

definition is_space :: "char \<Rightarrow> bool" where
  "is_space c = (let n = (of_char c :: nat) in
     (9 \<le> n \<and> n \<le> 13) \<or> (28 \<le> n \<and> n \<le> 32) \<or> n = 133 \<or> n = 160)"

definition is_digit :: "char \<Rightarrow> bool" where
  "is_digit c = (let n = (of_char c :: nat) in 48 \<le> n \<and> n \<le> 57)"

definition is_upper :: "char \<Rightarrow> bool" where
  "is_upper c = (let n = (of_char c :: nat) in 65 \<le> n \<and> n \<le> 90)"

definition is_word_char :: "char \<Rightarrow> bool" where
  "is_word_char c = (let n = (of_char c :: nat) in
     (48 \<le> n \<and> n \<le> 57) \<or> (65 \<le> n \<and> n \<le> 90) \<or> n = 95 \<or> (97 \<le> n \<and> n \<le> 122) \<or>
     n = 170 \<or> n = 178 \<or> n = 179 \<or> n = 181 \<or> n = 185 \<or> n = 186 \<or>
     (188 \<le> n \<and> n \<le> 190) \<or> (192 \<le> n \<and> n \<le> 214) \<or> (216 \<le> n \<and> n \<le> 246) \<or>
     (248 \<le> n \<and> n \<le> 255))"

text \<open>
  \<open>text.split()\<close>: a left-to-right scan that collects the maximal runs of non-whitespace
  characters; \<open>cur\<close> is the run being collected.
\<close>

fun split_scan :: "string \<Rightarrow> string \<Rightarrow> string list" where
  "split_scan cur [] = (if cur = [] then [] else [cur])"
| "split_scan cur (c # cs) =
     (if is_space c then (if cur = [] then split_scan [] cs else cur # split_scan [] cs)
      else split_scan (cur @ [c]) cs)"

definition str_split :: "string \<Rightarrow> string list" where
  "str_split s = split_scan [] s"

text \<open>\<open>sep.join(ws)\<close>.\<close>

fun str_join :: "string \<Rightarrow> string list \<Rightarrow> string" where
  "str_join sep [] = []"
| "str_join sep [w] = w"
| "str_join sep (w # v # ws) = w @ sep @ str_join sep (v # ws)"

text \<open>\<open>s.strip()\<close> and \<open>s.rstrip(chars)\<close>.\<close>

definition str_strip :: "string \<Rightarrow> string" where
  "str_strip s = rev (dropWhile is_space (rev (dropWhile is_space s)))"

definition str_rstrip :: "string \<Rightarrow> string \<Rightarrow> string" where
  "str_rstrip chars s = rev (dropWhile (\<lambda>c. c \<in> set chars) (rev s))"

text \<open>\<open>sub in s\<close> and \<open>s.endswith(suf)\<close>.\<close>

fun str_contains :: "string \<Rightarrow> string \<Rightarrow> bool" where
  "str_contains sub [] = (sub = [])"
| "str_contains sub (c # cs) = (prefix sub (c # cs) \<or> str_contains sub cs)"

definition str_endswith :: "string \<Rightarrow> string \<Rightarrow> bool" where
  "str_endswith s suf = (length suf \<le> length s \<and> drop (length s - length suf) s = suf)"

text \<open>
  \<open>s.replace(old, new)\<close>: the occurrences of \<open>old\<close> are found scanning from the left, and
  the scan resumes behind each occurrence it replaces. An empty \<open>old\<close> matches before every
  character and at the end.
\<close>

function replace_scan :: "string \<Rightarrow> string \<Rightarrow> string \<Rightarrow> string" where
  "replace_scan old new [] = []"
| "replace_scan old new (c # cs) =
     (if old \<noteq> [] \<and> prefix old (c # cs)
      then new @ replace_scan old new (drop (length old) (c # cs))
      else c # replace_scan old new cs)"
  by pat_completeness auto
termination
  by (relation "measure (\<lambda>(old, new, s). length s)") (auto simp: neq_Nil_conv)

definition str_replace :: "string \<Rightarrow> string \<Rightarrow> string \<Rightarrow> string" where
  "str_replace old new s =
     (if old = [] then new @ concat (map (\<lambda>c. c # new) s) else replace_scan old new s)"

text \<open>The format \<open>{n:02d}\<close> of a natural number: decimal, padded with zeros to width two.\<close>

function dec_digits :: "nat \<Rightarrow> string" where
  "dec_digits n = (if n < 10 then [''0123456789'' ! n]
                   else dec_digits (n div 10) @ [''0123456789'' ! (n mod 10)])"
  by pat_completeness auto
termination
  by (relation "measure id") auto

declare dec_digits.simps [simp del]

definition format_02d :: "nat \<Rightarrow> string" where
  "format_02d n = (let d = dec_digits n in replicate (2 - length d) CHR ''0'' @ d)"


section \<open>The three patterns\<close>

text \<open>
  \<open>\b\<close> holds at a position when exactly one of the character before it and the character
  after it is a word character; beyond either end of the string there is none.
\<close>

definition word_before :: "char option \<Rightarrow> bool" where
  "word_before prev = (case prev of None \<Rightarrow> False | Some c \<Rightarrow> is_word_char c)"

definition word_after :: "string \<Rightarrow> bool" where
  "word_after rest = (case rest of [] \<Rightarrow> False | c # _ \<Rightarrow> is_word_char c)"

definition word_boundary :: "char option \<Rightarrow> string \<Rightarrow> bool" where
  "word_boundary prev rest = (word_before prev \<noteq> word_after rest)"

datatype atom = Digit | Colon

fun atom_ok :: "atom \<Rightarrow> char \<Rightarrow> bool" where
  "atom_ok Digit c = is_digit c"
| "atom_ok Colon c = (c = CHR '':'')"

fun match_atoms :: "atom list \<Rightarrow> string \<Rightarrow> string option" where
  "match_atoms [] s = Some []"
| "match_atoms (a # as) [] = None"
| "match_atoms (a # as) (c # cs) =
     (if atom_ok a c then map_option ((#) c) (match_atoms as cs) else None)"

text \<open>
  \<open>segment_marker_pattern\<close> and \<open>timecode_pattern\<close> are both
  \<^verbatim>\<open>\b(\d{1,2}:\d{2}(?::\d{2})?)\b\<close>. At one start position the matcher tries, in the order
  of its greedy quantifiers, two hour digits before one, and each with the seconds group before
  without it; \<open>try_timecode h secs\<close> is one such attempt, closed by the final \<open>\b\<close>.
  \<open>prev\<close> is the character before the start position.
\<close>

definition timecode_shape :: "nat \<Rightarrow> bool \<Rightarrow> atom list" where
  "timecode_shape h secs =
     replicate h Digit @ [Colon, Digit, Digit] @ (if secs then [Colon, Digit, Digit] else [])"

definition try_timecode :: "nat \<Rightarrow> bool \<Rightarrow> string \<Rightarrow> string option" where
  "try_timecode h secs s =
     (case match_atoms (timecode_shape h secs) s of
        None \<Rightarrow> None
      | Some tc \<Rightarrow>
          if word_boundary (Some (last tc)) (drop (length tc) s) then Some tc else None)"

definition timecode_at :: "char option \<Rightarrow> string \<Rightarrow> string option" where
  "timecode_at prev s =
     (if \<not> word_boundary prev s then None
      else case try_timecode 2 True s of Some tc \<Rightarrow> Some tc | None \<Rightarrow>
          (case try_timecode 2 False s of Some tc \<Rightarrow> Some tc | None \<Rightarrow>
          (case try_timecode 1 True s of Some tc \<Rightarrow> Some tc | None \<Rightarrow>
           try_timecode 1 False s)))"

text \<open>\<open>pattern.search\<close> tries the start positions from the left and keeps the first match.\<close>

fun timecode_search_from :: "char option \<Rightarrow> string \<Rightarrow> string option" where
  "timecode_search_from prev [] = timecode_at prev []"
| "timecode_search_from prev (c # cs) =
     (case timecode_at prev (c # cs) of
        Some tc \<Rightarrow> Some tc
      | None \<Rightarrow> timecode_search_from (Some c) cs)"

text \<open>
  \<open>segment_marker_pattern.search(text)\<close> and \<open>timecode_pattern.match(text)\<close>, each giving the
  matched timecode (group 1, which is the whole match) or \<open>None\<close>.
\<close>

definition segment_marker_pattern_search :: "string \<Rightarrow> string option" where
  "segment_marker_pattern_search s = timecode_search_from None s"

definition timecode_pattern_match :: "string \<Rightarrow> string option" where
  "timecode_pattern_match s = timecode_at None s"

text \<open>
  \<open>speaker_pattern.match(text)\<close> for \<^verbatim>\<open>^[A-Z]+:?\s\<close>. Giving back letters of the greedy
  \<open>[A-Z]+\<close> never helps, since what follows must be a colon or whitespace.
\<close>

definition speaker_pattern_match :: "string \<Rightarrow> bool" where
  "speaker_pattern_match s =
     (takeWhile is_upper s \<noteq> [] \<and>
      (case dropWhile is_upper s of
         [] \<Rightarrow> False
       | c # rest \<Rightarrow>
           if c = CHR '':'' then (case rest of [] \<Rightarrow> False | d # _ \<Rightarrow> is_space d)
           else is_space c))"


section \<open>Line wrapping\<close>

text \<open>
  The loop of \<open>split_text_into_lines\<close> over the words, with its three variables \<open>lines\<close>,
  \<open>current_line\<close> and \<open>current_length\<close>, and the final flush of \<open>current_line\<close>.
\<close>

fun wrap_words :: "int \<Rightarrow> string list \<Rightarrow> string list \<Rightarrow> string list \<Rightarrow> int \<Rightarrow> string list" where
  "wrap_words max_length [] lines current_line current_length =
     (if current_line \<noteq> [] then lines @ [str_join '' '' current_line] else lines)"
| "wrap_words max_length (word # words) lines current_line current_length =
     (if current_length + int (length word) + (if current_length > 0 then 1 else 0) \<le> max_length
      then wrap_words max_length words lines (current_line @ [word])
             (current_length + int (length word) + (if current_length > 0 then 1 else 0))
      else wrap_words max_length words
             (if current_line \<noteq> [] then lines @ [str_join '' '' current_line] else lines)
             [word] (int (length word)))"

definition split_text_into_lines :: "string \<Rightarrow> int \<Rightarrow> string list" where
  "split_text_into_lines text max_length = wrap_words max_length (str_split text) [] [] 0"

text \<open>A word in the sense of \<open>split\<close>: not empty and free of whitespace.\<close>

definition is_word_str :: "string \<Rightarrow> bool" where
  "is_word_str w = (w \<noteq> [] \<and> (\<forall>c\<in>set w. \<not> is_space c))"


section \<open>The output table\<close>

text \<open>
  A row of the two-column output table: a merged full-width row carrying one run of text
  (bold or not), the untouched row that \<open>add_row_content\<close> leaves when \<open>is_separator\<close> is
  false, or a row whose speaker cell and content cell each hold a run or stay empty. Fonts and
  paragraph spacing are left out.
\<close>

datatype color = RGBColor nat nat nat

datatype row =
    MergedRow string bool
  | BlankRow
  | SplitRow "(string \<times> color option) option" "string option"

definition add_row_content :: "row list \<Rightarrow> string \<Rightarrow> bool \<Rightarrow> bool \<Rightarrow> row list" where
  "add_row_content table text is_separator is_bold =
     table @ [if is_separator then MergedRow text is_bold else BlankRow]"

definition add_split_content :: "row list \<Rightarrow> string \<Rightarrow> string \<Rightarrow> color option \<Rightarrow> row list" where
  "add_split_content table speaker content speaker_color =
     table @ [SplitRow (if speaker \<noteq> [] then Some (speaker, speaker_color) else None)
                       (if content \<noteq> [] then Some content else None)]"


section \<open>The paragraph loop of \<open>process_docx\<close>\<close>

datatype error = FileNotFoundError | IndexError | AttributeError | LibraryError string

record loop_state =
  segment_count :: nat
  skip_pages :: bool
  table :: "row list"

definition MAX_LINE_LENGTH :: int where
  "MAX_LINE_LENGTH = 90"

text \<open>The test \<open>segment_marker_pattern.search(text) and "----------" in text\<close>.\<close>

definition is_segment_marker :: "string \<Rightarrow> bool" where
  "is_segment_marker text =
     (segment_marker_pattern_search text \<noteq> None \<and> str_contains ''----------'' text)"

definition segment_text :: "int \<Rightarrow> string \<Rightarrow> nat \<Rightarrow> string" where
  "segment_text separator_length timecode count =
     (let spacing = separator_length - int (length timecode) - 2 + 26
      in timecode @ replicate (nat spacing) CHR '' '' @ '' '' @ format_02d count)"

text \<open>
  The branch for a segment marker. \<open>.group(1)\<close> on a failed search would raise
  \<open>AttributeError\<close>.
\<close>

definition handle_segment_marker :: "int \<Rightarrow> loop_state \<Rightarrow> string \<Rightarrow> error + loop_state" where
  "handle_segment_marker separator_length st text =
     (let count = segment_count st + 1;
          t1 = add_row_content (table st) (replicate (nat separator_length) CHR ''-'') True False
      in case segment_marker_pattern_search text of
           None \<Rightarrow> Inl AttributeError
         | Some timecode \<Rightarrow>
             Inr (st\<lparr>segment_count := count,
                     table := add_row_content t1
                                (segment_text separator_length timecode count) True True\<rparr>))"

text \<open>The step "Remove timecode if present".\<close>

definition remove_timecode :: "string \<Rightarrow> string" where
  "remove_timecode text =
     (case timecode_pattern_match text of
        Some timecode \<Rightarrow> str_strip (str_replace timecode [] text)
      | None \<Rightarrow> text)"

text \<open>The branch for a speaker line; \<open>lines[0]\<close> on an empty list would raise \<open>IndexError\<close>.\<close>

definition handle_speaker :: "loop_state \<Rightarrow> string \<Rightarrow> error + loop_state" where
  "handle_speaker st text =
     (let words = str_split text;
          speaker = (if words \<noteq> [] then str_rstrip '':'' (hd words) else []);
          content = str_strip (str_join '' '' (tl words))
      in if content \<noteq> [] then
           (case split_text_into_lines content MAX_LINE_LENGTH of
              [] \<Rightarrow> Inl IndexError
            | first # remaining \<Rightarrow>
                Inr (st\<lparr>table :=
                  foldl (\<lambda>t line. add_split_content t [] line None)
                    (add_split_content (table st) speaker first (Some (RGBColor 255 0 0)))
                    remaining\<rparr>))
         else Inr (st\<lparr>table := add_split_content (table st) speaker [] (Some (RGBColor 255 0 0))\<rparr>))"

definition handle_plain :: "loop_state \<Rightarrow> string \<Rightarrow> loop_state" where
  "handle_plain st text =
     (if text \<noteq> [] then st\<lparr>table := add_split_content (table st) [] text None\<rparr> else st)"

text \<open>The body of the loop behind the \<open>skip_pages\<close> test, on the stripped text.\<close>

definition process_line :: "int \<Rightarrow> loop_state \<Rightarrow> string \<Rightarrow> error + loop_state" where
  "process_line separator_length st text =
     (if is_segment_marker text then handle_segment_marker separator_length st text
      else let text' = remove_timecode text
           in if speaker_pattern_match text' then handle_speaker st text'
              else Inr (handle_plain st text'))"

text \<open>One iteration of \<open>for para in doc.paragraphs\<close>; \<open>para_text\<close> is \<open>para.text\<close>.\<close>

definition process_paragraph :: "int \<Rightarrow> loop_state \<Rightarrow> string \<Rightarrow> error + loop_state" where
  "process_paragraph separator_length st para_text =
     (let text = str_strip para_text
      in if skip_pages st then
           (if is_segment_marker text
            then process_line separator_length (st\<lparr>skip_pages := False\<rparr>) text
            else Inr st)
         else process_line separator_length st text)"

fun process_paragraphs :: "int \<Rightarrow> loop_state \<Rightarrow> string list \<Rightarrow> error + loop_state" where
  "process_paragraphs separator_length st [] = Inr st"
| "process_paragraphs separator_length st (p # ps) =
     (case process_paragraph separator_length st p of
        Inl e \<Rightarrow> Inl e
      | Inr st' \<Rightarrow> process_paragraphs separator_length st' ps)"

definition initial_state :: loop_state where
  "initial_state = \<lparr>segment_count = 0, skip_pages = True, table = []\<rparr>"


section \<open>\<open>process_docx\<close> and the file system\<close>

text \<open>
  What \<open>process_docx\<close> takes from outside the repository. \<open>document_paragraphs\<close> is
  \<open>Document(input_file)\<close> followed by reading the text of its paragraphs: the texts, or the
  exception the library raises. \<open>save_raises\<close> is the exception \<open>out_doc.save\<close> raises for a
  path, if any. \<open>available_width\<close> is the result of \<open>get_available_width(section)\<close>, a
  floating-point computation on the page settings of the library's default template.
\<close>

record environment =
  document_paragraphs :: "string \<Rightarrow> error + string list"
  save_raises :: "string \<Rightarrow> error option"
  available_width :: int

text \<open>
  The file system: the paths that exist (\<open>os.path.exists\<close>) and the documents saved so far,
  each with its path and the rows of its table, oldest first.
\<close>

record world =
  existing :: "string set"
  saved :: "(string \<times> row list) list"

definition docx_path :: "string \<Rightarrow> string" where
  "docx_path output_file =
     (if str_endswith output_file ''.docx'' then output_file else output_file @ ''.docx'')"

definition process_docx ::
  "environment \<Rightarrow> string \<Rightarrow> string \<Rightarrow> world \<Rightarrow> (error + string) \<times> world" where
  "process_docx env input_file output_file w =
     (if input_file \<notin> existing w then (Inl FileNotFoundError, w)
      else case document_paragraphs env input_file of
        Inl e \<Rightarrow> (Inl e, w)
      | Inr paragraphs \<Rightarrow>
          (case process_paragraphs (available_width env + 4) initial_state paragraphs of
             Inl e \<Rightarrow> (Inl e, w)
           | Inr st \<Rightarrow>
               (let output_file' = docx_path output_file
                in case save_raises env output_file' of
                     Some e \<Rightarrow> (Inl e, w)
                   | None \<Rightarrow>
                       (Inr output_file',
                        w\<lparr>existing := insert output_file' (existing w),
                          saved := saved w @ [(output_file', table st)]\<rparr>))))"


section \<open>The glossary's terms\<close>

text \<open>
  The specification's words, stated on their own for comparison with the patterns above.
  A timecode is one or two digits, a colon and two digits, optionally followed by a colon and
  two more digits. A text contains a timecode token when a timecode occurs in it with no word
  character next to it on either side. The dashed separator is a run of ten hyphens.
\<close>

definition digits :: "nat \<Rightarrow> string \<Rightarrow> bool" where
  "digits k s = (length s = k \<and> list_all is_digit s)"

definition timecode_form :: "string \<Rightarrow> bool" where
  "timecode_form tc =
     (\<exists>h m. (digits 1 h \<or> digits 2 h) \<and> digits 2 m \<and>
        (tc = h @ '':'' @ m \<or> (\<exists>s. digits 2 s \<and> tc = h @ '':'' @ m @ '':'' @ s)))"

definition contains_timecode_token :: "string \<Rightarrow> bool" where
  "contains_timecode_token text =
     (\<exists>pre tc post. text = pre @ tc @ post \<and> timecode_form tc \<and>
        (pre = [] \<or> \<not> is_word_char (last pre)) \<and> (post = [] \<or> \<not> is_word_char (hd post)))"

definition begins_with_timecode_token :: "string \<Rightarrow> bool" where
  "begins_with_timecode_token text =
     (\<exists>tc post. text = tc @ post \<and> timecode_form tc \<and>
        (post = [] \<or> \<not> is_word_char (hd post)))"

definition contains_dashed_separator :: "string \<Rightarrow> bool" where
  "contains_dashed_separator text = (\<exists>a b. text = a @ ''----------'' @ b)"


section \<open>Kinds of rows and of lines\<close>

fun is_merged_row :: "row \<Rightarrow> bool" where
  "is_merged_row (MergedRow _ _) = True"
| "is_merged_row _ = False"

fun is_split_row :: "row \<Rightarrow> bool" where
  "is_split_row (SplitRow _ _) = True"
| "is_split_row _ = False"

text \<open>The branch that \<open>process_line\<close> takes for a stripped text.\<close>

datatype line_kind = SegmentMarker | SpeakerLine | PlainLine

definition classify :: "string \<Rightarrow> line_kind" where
  "classify text =
     (if is_segment_marker text then SegmentMarker
      else if speaker_pattern_match (remove_timecode text) then SpeakerLine
      else PlainLine)"


text \<open>The table that the loop builds from the paragraphs of a document.\<close>

definition output_table :: "int \<Rightarrow> string list \<Rightarrow> row list" where
  "output_table separator_length paragraphs =
     (case process_paragraphs separator_length initial_state paragraphs of
        Inr st \<Rightarrow> table st
      | Inl e \<Rightarrow> [])"


text \<open>
  A speaker token is a word of uppercase letters, optionally followed by a colon; a line
  begins with one when its first word is one.
\<close>

definition speaker_token :: "string \<Rightarrow> bool" where
  "speaker_token w = (\<exists>u. u \<noteq> [] \<and> list_all is_upper u \<and> (w = u \<or> w = u @ '':''))"

definition begins_with_speaker_token :: "string \<Rightarrow> bool" where
  "begins_with_speaker_token text =
     (case str_split text of [] \<Rightarrow> False | w # _ \<Rightarrow> speaker_token w)"


section \<open>Properties of splitting and joining\<close>

lemma is_space_blank: "is_space CHR '' ''"
  by (simp add: is_space_def)

lemma split_scan_nospace:
  "\<forall>c\<in>set w. \<not> is_space c \<Longrightarrow> split_scan cur (w @ rest) = split_scan (cur @ w) rest"
  by (induction w arbitrary: cur) auto

lemma split_scan_words_mem:
  "\<forall>c\<in>set cur. \<not> is_space c \<Longrightarrow> w \<in> set (split_scan cur s) \<Longrightarrow> is_word_str w"
proof (induction cur s rule: split_scan.induct)
  case (1 cur)
  then show ?case by (simp add: is_word_str_def split: if_splits)
next
  case (2 cur c cs)
  show ?case
  proof (cases "is_space c")
    case True
    note sp = this
    show ?thesis
    proof (cases "cur = []")
      case True
      with sp 2 show ?thesis by simp
    next
      case False
      with sp 2 show ?thesis by (auto simp: is_word_str_def)
    qed
  next
    case False
    with 2 show ?thesis by simp
  qed
qed

lemma split_scan_words:
  "\<forall>c\<in>set cur. \<not> is_space c \<Longrightarrow> \<forall>w\<in>set (split_scan cur s). is_word_str w"
  using split_scan_words_mem by blast

lemma str_split_words: "\<forall>w\<in>set (str_split s). is_word_str w"
  unfolding str_split_def by (rule split_scan_words) simp

lemma split_scan_nonempty:
  "cur \<noteq> [] \<or> (\<exists>c\<in>set s. \<not> is_space c) \<Longrightarrow> split_scan cur s \<noteq> []"
  by (induction s arbitrary: cur) auto

lemma str_split_join:
  "ws \<noteq> [] \<Longrightarrow> \<forall>w\<in>set ws. is_word_str w \<Longrightarrow> str_split (str_join '' '' ws) = ws"
proof (induction "'' ''" ws rule: str_join.induct)
  case 1
  then show ?case by simp
next
  case (2 w)
  then have "split_scan [] (w @ []) = split_scan ([] @ w) []"
    by (intro split_scan_nospace) (simp add: is_word_str_def)
  with 2 show ?case by (simp add: str_split_def is_word_str_def)
next
  case (3 w v ws)
  have w: "w \<noteq> []" "\<forall>c\<in>set w. \<not> is_space c"
    using 3(3) by (auto simp: is_word_str_def)
  have "split_scan [] (w @ (CHR '' '' # str_join '' '' (v # ws)))
          = split_scan ([] @ w) (CHR '' '' # str_join '' '' (v # ws))"
    using w(2) by (rule split_scan_nospace)
  also have "\<dots> = w # split_scan [] (str_join '' '' (v # ws))"
    using w(1) by (simp add: is_space_blank)
  also have "split_scan [] (str_join '' '' (v # ws)) = v # ws"
    using 3 by (simp add: str_split_def)
  finally show ?case by (simp add: str_split_def)
qed

lemma length_str_join_snoc:
  "length (str_join sep (ws @ [w])) =
     (if ws = [] then length w else length (str_join sep ws) + length sep + length w)"
  by (induction sep ws rule: str_join.induct) auto

lemma str_join_nonempty: "ws \<noteq> [] \<Longrightarrow> \<forall>w\<in>set ws. w \<noteq> [] \<Longrightarrow> str_join sep ws \<noteq> []"
  by (induction sep ws rule: str_join.induct) auto


section \<open>Properties of the wrapping loop\<close>

lemma wrap_words_concat:
  "\<forall>w\<in>set current_line. is_word_str w \<Longrightarrow> \<forall>w\<in>set words. is_word_str w \<Longrightarrow>
   concat (map str_split (wrap_words m words lines current_line n)) =
   concat (map str_split lines) @ current_line @ words"
proof (induction words arbitrary: lines current_line n)
  case Nil
  then show ?case by (simp add: str_split_join)
next
  case (Cons w words)
  then show ?case by (simp add: str_split_join)
qed

text \<open>
  The loop invariant behind the length bound: \<open>current_length\<close> is the length of the joined
  \<open>current_line\<close>, and that line still fits.
\<close>

lemma wrap_words_bound:
  "\<forall>w\<in>set words. w \<noteq> [] \<and> int (length w) \<le> m \<Longrightarrow>
   \<forall>l\<in>set lines. int (length l) \<le> m \<Longrightarrow>
   n = int (length (str_join '' '' current_line)) \<Longrightarrow>
   n \<le> m \<or> current_line = [] \<Longrightarrow>
   \<forall>w\<in>set current_line. w \<noteq> [] \<Longrightarrow>
   \<forall>l\<in>set (wrap_words m words lines current_line n). int (length l) \<le> m"
proof (induction words arbitrary: lines current_line n)
  case Nil
  then show ?case by auto
next
  case (Cons w words)
  have pos: "current_line \<noteq> [] \<Longrightarrow> 0 < n"
    using Cons.prems(3,5) str_join_nonempty[of current_line "'' ''"] by simp
  have zero: "current_line = [] \<Longrightarrow> n = 0"
    using Cons.prems(3) by simp
  show ?case
  proof (cases "n + int (length w) + (if n > 0 then 1 else 0) \<le> m")
    case True
    have len: "n + int (length w) + (if n > 0 then 1 else 0)
                 = int (length (str_join '' '' (current_line @ [w])))"
      using pos zero Cons.prems(3)
      by (cases "current_line = []") (simp_all add: length_str_join_snoc)
    have "\<forall>l\<in>set (wrap_words m words lines (current_line @ [w])
                    (n + int (length w) + (if n > 0 then 1 else 0))). int (length l) \<le> m"
      using Cons.prems True len by (intro Cons.IH) auto
    with True show ?thesis by simp
  next
    case False
    have "\<forall>l\<in>set (wrap_words m words
                    (if current_line \<noteq> [] then lines @ [str_join '' '' current_line] else lines)
                    [w] (int (length w))). int (length l) \<le> m"
      using Cons.prems by (intro Cons.IH) auto
    with False show ?thesis by simp
  qed
qed

lemma wrap_words_nonempty:
  "words \<noteq> [] \<or> current_line \<noteq> [] \<or> lines \<noteq> [] \<Longrightarrow>
   wrap_words m words lines current_line n \<noteq> []"
  by (induction words arbitrary: lines current_line n) auto

lemma split_text_into_lines_nonempty:
  "\<exists>c\<in>set s. \<not> is_space c \<Longrightarrow> split_text_into_lines s m \<noteq> []"
  unfolding split_text_into_lines_def str_split_def
  by (intro wrap_words_nonempty) (simp add: split_scan_nonempty)


section \<open>Claims on line wrapping\<close>

text \<open>
  C1. For every text and every positive \<open>max_length\<close> such that each whitespace-separated
  word of the text has length at most \<open>max_length\<close>, every line returned by
  \<open>split_text_into_lines\<close> has length at most \<open>max_length\<close>.
\<close>

theorem split_text_into_lines_length_bound:
  assumes "0 < max_length"
    and "\<forall>w\<in>set (str_split text). int (length w) \<le> max_length"
  shows "\<forall>l\<in>set (split_text_into_lines text max_length). int (length l) \<le> max_length"
  unfolding split_text_into_lines_def
  using assms str_split_words[of "text"]
  by (intro wrap_words_bound) (auto simp: is_word_str_def)

theorem split_text_into_lines_length_bound_witness:
  "(0::int) < 11 \<and>
   map length (str_split ''  hello  world this is a test  '') = [5, 5, 4, 2, 1, 4] \<and>
   split_text_into_lines ''  hello  world this is a test  '' 11
     = [''hello world'', ''this is a'', ''test''] \<and>
   list_all (\<lambda>l. int (length l) \<le> 11)
     (split_text_into_lines ''  hello  world this is a test  '' 11)"
proof -
  have ws: "str_split ''  hello  world this is a test  ''
              = [''hello'', ''world'', ''this'', ''is'', ''a'', ''test'']"
    by (simp add: str_split_def is_space_def)
  have w: "\<forall>w\<in>set (str_split ''  hello  world this is a test  ''). int (length w) \<le> 11"
    unfolding ws by simp
  have v: "split_text_into_lines ''  hello  world this is a test  '' 11
             = [''hello world'', ''this is a'', ''test'']"
    unfolding split_text_into_lines_def ws by simp
  have pos: "(0::int) < 11" by simp
  have l: "list_all (\<lambda>l. int (length l) \<le> 11)
             (split_text_into_lines ''  hello  world this is a test  '' 11)"
    unfolding list_all_iff by (rule split_text_into_lines_length_bound [OF pos w])
  have m: "map length (str_split ''  hello  world this is a test  '') = [5, 5, 4, 2, 1, 4]"
    unfolding ws by simp
  show ?thesis by (intro conjI pos m v l)
qed

text \<open>
  C2. For every text and every \<open>max_length\<close>, splitting each returned line on whitespace and
  concatenating the word lists in order gives exactly \<open>text.split()\<close>: wrapping loses,
  duplicates and reorders no word.
\<close>

theorem split_text_into_lines_preserves_words:
  "concat (map str_split (split_text_into_lines text max_length)) = str_split text"
  unfolding split_text_into_lines_def
  using str_split_words[of "text"] by (simp add: wrap_words_concat)

section \<open>The loop never raises\<close>

lemma str_strip_nonspace: "str_strip s \<noteq> [] \<Longrightarrow> \<exists>c\<in>set (str_strip s). \<not> is_space c"
proof -
  assume ne: "str_strip s \<noteq> []"
  let ?d = "dropWhile is_space (rev (dropWhile is_space s))"
  from ne have d: "?d \<noteq> []" by (simp add: str_strip_def)
  then have "\<not> is_space (hd ?d)" by (rule hd_dropWhile)
  moreover from d have "hd ?d \<in> set ?d" by simp
  ultimately show ?thesis unfolding str_strip_def set_rev by blast
qed

lemma handle_speaker_total: "\<exists>st'. handle_speaker st text = Inr st'"
proof (cases "str_strip (str_join '' '' (tl (str_split text))) = []")
  case True
  then show ?thesis by (simp add: handle_speaker_def Let_def)
next
  case False
  then have "split_text_into_lines (str_strip (str_join '' '' (tl (str_split text)))) MAX_LINE_LENGTH \<noteq> []"
    by (intro split_text_into_lines_nonempty str_strip_nonspace)
  then obtain l ls where
    "split_text_into_lines (str_strip (str_join '' '' (tl (str_split text)))) MAX_LINE_LENGTH = l # ls"
    by (auto simp: neq_Nil_conv)
  with False show ?thesis by (simp add: handle_speaker_def Let_def)
qed

lemma handle_segment_marker_eq:
  "segment_marker_pattern_search text = Some timecode \<Longrightarrow>
   handle_segment_marker sep st text =
     Inr (st\<lparr>segment_count := segment_count st + 1,
             table := table st @ [MergedRow (replicate (nat sep) CHR ''-'') False,
                                  MergedRow (segment_text sep timecode (segment_count st + 1)) True]\<rparr>)"
  by (simp add: handle_segment_marker_def add_row_content_def Let_def)

lemma process_line_total: "\<exists>st'. process_line sep st text = Inr st'"
proof (cases "is_segment_marker text")
  case True
  then obtain tc where "segment_marker_pattern_search text = Some tc"
    by (auto simp: is_segment_marker_def)
  with True show ?thesis by (simp add: process_line_def handle_segment_marker_eq)
next
  case False
  then show ?thesis using handle_speaker_total by (simp add: process_line_def Let_def)
qed

lemma process_paragraph_total: "\<exists>st'. process_paragraph sep st p = Inr st'"
  using process_line_total by (simp add: process_paragraph_def Let_def)

lemma process_paragraphs_total: "\<exists>st'. process_paragraphs sep st ps = Inr st'"
proof (induction ps arbitrary: st)
  case Nil
  show ?case by simp
next
  case (Cons p ps)
  obtain st1 where "process_paragraph sep st p = Inr st1"
    using process_paragraph_total by blast
  with Cons show ?case by simp
qed

lemma process_paragraphs_append:
  "process_paragraphs sep st (ps @ qs) =
     (case process_paragraphs sep st ps of Inl e \<Rightarrow> Inl e | Inr st' \<Rightarrow> process_paragraphs sep st' qs)"
  by (induction ps arbitrary: st) (auto split: sum.splits)


text \<open>
  C8. For every text with at least one non-whitespace character and every \<open>max_length\<close>,
  \<open>split_text_into_lines\<close> returns a non-empty list; hence \<open>lines[0]\<close>, read when a speaker
  line has non-empty content, never indexes an empty list: the speaker branch raises no
  \<open>IndexError\<close>, whatever the line.
\<close>

theorem split_text_into_lines_nonempty_and_first_line_safe:
  "((\<exists>c\<in>set text. \<not> is_space c) \<longrightarrow> split_text_into_lines text max_length \<noteq> []) \<and>
   handle_speaker st line \<noteq> Inl IndexError \<and>
   process_paragraph separator_length st para_text \<noteq> Inl IndexError"
proof (intro conjI impI)
  assume "\<exists>c\<in>set text. \<not> is_space c"
  then show "split_text_into_lines text max_length \<noteq> []"
    by (rule split_text_into_lines_nonempty)
next
  obtain st' where "handle_speaker st line = Inr st'"
    using handle_speaker_total by blast
  then show "handle_speaker st line \<noteq> Inl IndexError" by simp
next
  obtain st' where "process_paragraph separator_length st para_text = Inr st'"
    using process_paragraph_total by blast
  then show "process_paragraph separator_length st para_text \<noteq> Inl IndexError" by simp
qed

theorem split_text_into_lines_nonempty_and_first_line_safe_witness:
  "\<not> is_space CHR ''b'' \<and>
   split_text_into_lines ''  b '' (- 5) \<noteq> [] \<and>
   handle_speaker initial_state ''JOHN: b'' \<noteq> Inl IndexError \<and>
   process_paragraph 104 initial_state ''JOHN: b'' \<noteq> Inl IndexError"
proof -
  have b: "\<not> is_space CHR ''b''" by (simp add: is_space_def)
  then have ex: "\<exists>c\<in>set ''  b ''. \<not> is_space c" by simp
  note t = split_text_into_lines_nonempty_and_first_line_safe
             [of "''  b ''" "- 5" initial_state "''JOHN: b''" 104 "''JOHN: b''"]
  from t ex have "split_text_into_lines ''  b '' (- 5) \<noteq> []" by blast
  moreover from t have "handle_speaker initial_state ''JOHN: b'' \<noteq> Inl IndexError" by blast
  moreover from t have "process_paragraph 104 initial_state ''JOHN: b'' \<noteq> Inl IndexError"
    by blast
  ultimately show ?thesis using b by blast
qed

section \<open>The timecode pattern against the glossary\<close>

lemma is_digit_word: "is_digit c \<Longrightarrow> is_word_char c"
  by (simp add: is_digit_def is_word_char_def Let_def)

lemma colon_not_word: "\<not> is_word_char CHR '':''"
  by (simp add: is_word_char_def)

lemma match_atoms_Some:
  "match_atoms as s = Some tc \<longleftrightarrow> list_all2 atom_ok as tc \<and> prefix tc s"
proof (induction as s arbitrary: tc rule: match_atoms.induct)
  case (1 s)
  show ?case by auto
next
  case (2 a as)
  show ?case by (auto simp: list_all2_Cons1)
next
  case (3 a as c cs)
  show ?case
  proof (cases "atom_ok a c")
    case True
    with 3 show ?thesis by (cases tc) (auto simp: list_all2_Cons1)
  next
    case False
    then show ?thesis by (auto simp: list_all2_Cons1 prefix_Cons)
  qed
qed

lemma shape_1_plain:
  "list_all2 atom_ok (timecode_shape 1 False) tc \<longleftrightarrow>
     (\<exists>a c d. tc = [a, CHR '':'', c, d] \<and> is_digit a \<and> is_digit c \<and> is_digit d)"
  by (auto simp: timecode_shape_def list_all2_Cons1)

lemma shape_2_plain:
  "list_all2 atom_ok (timecode_shape 2 False) tc \<longleftrightarrow>
     (\<exists>a b c d. tc = [a, b, CHR '':'', c, d] \<and> is_digit a \<and> is_digit b \<and> is_digit c \<and> is_digit d)"
  by (auto simp: timecode_shape_def list_all2_Cons1 numeral_2_eq_2)

lemma shape_1_secs:
  "list_all2 atom_ok (timecode_shape 1 True) tc \<longleftrightarrow>
     (\<exists>a c d e f. tc = [a, CHR '':'', c, d, CHR '':'', e, f] \<and>
        is_digit a \<and> is_digit c \<and> is_digit d \<and> is_digit e \<and> is_digit f)"
  by (auto simp: timecode_shape_def list_all2_Cons1)

lemma shape_2_secs:
  "list_all2 atom_ok (timecode_shape 2 True) tc \<longleftrightarrow>
     (\<exists>a b c d e f. tc = [a, b, CHR '':'', c, d, CHR '':'', e, f] \<and>
        is_digit a \<and> is_digit b \<and> is_digit c \<and> is_digit d \<and> is_digit e \<and> is_digit f)"
  by (auto simp: timecode_shape_def list_all2_Cons1 numeral_2_eq_2)

lemmas shape_iffs = shape_1_plain shape_2_plain shape_1_secs shape_2_secs

lemma digits_1: "digits 1 s \<longleftrightarrow> (\<exists>a. s = [a] \<and> is_digit a)"
  by (auto simp: digits_def length_Suc_conv)

lemma digits_2: "digits 2 s \<longleftrightarrow> (\<exists>a b. s = [a, b] \<and> is_digit a \<and> is_digit b)"
  by (auto simp: digits_def length_Suc_conv numeral_2_eq_2)

lemma timecode_form_cases:
  "timecode_form tc \<longleftrightarrow>
     (\<exists>a c d. tc = [a, CHR '':'', c, d] \<and> is_digit a \<and> is_digit c \<and> is_digit d) \<or>
     (\<exists>a b c d. tc = [a, b, CHR '':'', c, d] \<and>
        is_digit a \<and> is_digit b \<and> is_digit c \<and> is_digit d) \<or>
     (\<exists>a c d e f. tc = [a, CHR '':'', c, d, CHR '':'', e, f] \<and>
        is_digit a \<and> is_digit c \<and> is_digit d \<and> is_digit e \<and> is_digit f) \<or>
     (\<exists>a b c d e f. tc = [a, b, CHR '':'', c, d, CHR '':'', e, f] \<and>
        is_digit a \<and> is_digit b \<and> is_digit c \<and> is_digit d \<and> is_digit e \<and> is_digit f)"
  (is "_ \<longleftrightarrow> ?P1 \<or> ?P2 \<or> ?S1 \<or> ?S2")
proof
  assume "timecode_form tc"
  then obtain h m where hm: "digits 1 h \<or> digits 2 h" "digits 2 m"
    and tc: "tc = h @ '':'' @ m \<or> (\<exists>s. digits 2 s \<and> tc = h @ '':'' @ m @ '':'' @ s)"
    unfolding timecode_form_def by blast
  from hm(2) obtain c d where m: "m = [c, d]" "is_digit c" "is_digit d"
    unfolding digits_2 by blast
  from tc show "?P1 \<or> ?P2 \<or> ?S1 \<or> ?S2"
  proof
    assume plain: "tc = h @ '':'' @ m"
    from hm(1) show ?thesis
    proof
      assume "digits 1 h"
      then obtain a where "h = [a]" "is_digit a" unfolding digits_1 by blast
      with plain m have ?P1 by simp
      then show ?thesis by blast
    next
      assume "digits 2 h"
      then obtain a b where "h = [a, b]" "is_digit a" "is_digit b" unfolding digits_2 by blast
      with plain m have ?P2 by simp
      then show ?thesis by blast
    qed
  next
    assume "\<exists>s. digits 2 s \<and> tc = h @ '':'' @ m @ '':'' @ s"
    then obtain e f where secs: "tc = h @ '':'' @ m @ '':'' @ [e, f]" "is_digit e" "is_digit f"
      unfolding digits_2 by blast
    from hm(1) show ?thesis
    proof
      assume "digits 1 h"
      then obtain a where "h = [a]" "is_digit a" unfolding digits_1 by blast
      with secs m have ?S1 by simp
      then show ?thesis by blast
    next
      assume "digits 2 h"
      then obtain a b where "h = [a, b]" "is_digit a" "is_digit b" unfolding digits_2 by blast
      with secs m have ?S2 by simp
      then show ?thesis by blast
    qed
  qed
next
  assume "?P1 \<or> ?P2 \<or> ?S1 \<or> ?S2"
  then consider (p1) ?P1 | (p2) ?P2 | (s1) ?S1 | (s2) ?S2 by blast
  then show "timecode_form tc"
  proof cases
    case p1
    then obtain a c d where "tc = [a, CHR '':'', c, d]" "is_digit a" "is_digit c" "is_digit d"
      by blast
    then have "tc = [a] @ '':'' @ [c, d]" "digits 1 [a]" "digits 2 [c, d]"
      by (simp_all add: digits_def)
    then show ?thesis unfolding timecode_form_def by blast
  next
    case p2
    then obtain a b c d where "tc = [a, b, CHR '':'', c, d]"
      "is_digit a" "is_digit b" "is_digit c" "is_digit d"
      by blast
    then have "tc = [a, b] @ '':'' @ [c, d]" "digits 2 [a, b]" "digits 2 [c, d]"
      by (simp_all add: digits_def)
    then show ?thesis unfolding timecode_form_def by blast
  next
    case s1
    then obtain a c d e f where "tc = [a, CHR '':'', c, d, CHR '':'', e, f]"
      "is_digit a" "is_digit c" "is_digit d" "is_digit e" "is_digit f"
      by blast
    then have "tc = [a] @ '':'' @ [c, d] @ '':'' @ [e, f]"
      "digits 1 [a]" "digits 2 [c, d]" "digits 2 [e, f]"
      by (simp_all add: digits_def)
    then show ?thesis unfolding timecode_form_def by blast
  next
    case s2
    then obtain a b c d e f where "tc = [a, b, CHR '':'', c, d, CHR '':'', e, f]"
      "is_digit a" "is_digit b" "is_digit c" "is_digit d" "is_digit e" "is_digit f"
      by blast
    then have "tc = [a, b] @ '':'' @ [c, d] @ '':'' @ [e, f]"
      "digits 2 [a, b]" "digits 2 [c, d]" "digits 2 [e, f]"
      by (simp_all add: digits_def)
    then show ?thesis unfolding timecode_form_def by blast
  qed
qed

lemma timecode_form_shape:
  "timecode_form tc \<longleftrightarrow>
     (\<exists>h secs. (h = 1 \<or> h = 2) \<and> list_all2 atom_ok (timecode_shape h secs) tc)"
proof -
  let ?L = "\<lambda>h secs. list_all2 atom_ok (timecode_shape h secs) tc"
  have ab: "(\<exists>h secs. (h = 1 \<or> h = 2) \<and> ?L h secs) \<longleftrightarrow>
          ?L 1 False \<or> ?L 2 False \<or> ?L 1 True \<or> ?L 2 True"
    (is "?A \<longleftrightarrow> ?B")
  proof
    assume ?A
    then obtain h secs where h: "h = 1 \<or> h = 2" and l: "?L h secs" by blast
    show ?B
    proof (cases secs)
      case True
      then have "secs = True" by simp
      with l have "?L h True" by simp
      with h have "?L 1 True \<or> ?L 2 True" by blast
      then show ?thesis by blast
    next
      case False
      then have "secs = False" by simp
      with l have "?L h False" by simp
      with h have "?L 1 False \<or> ?L 2 False" by blast
      then show ?thesis by blast
    qed
  next
    assume ?B
    then show ?A by blast
  qed
  have tb: "timecode_form tc \<longleftrightarrow> ?B"
    unfolding timecode_form_cases shape_iffs by (rule refl)
  show ?thesis unfolding tb ab by (rule refl)
qed

lemma digits_ends:
  assumes "digits k s" and "0 < k"
  shows "s \<noteq> [] \<and> is_digit (hd s) \<and> is_digit (last s)"
proof -
  from assms have ne: "s \<noteq> []" by (auto simp: digits_def)
  then have "hd s \<in> set s" "last s \<in> set s" by simp_all
  with assms(1) ne show ?thesis by (simp add: digits_def list_all_iff)
qed

lemma timecode_form_ends:
  assumes "timecode_form tc"
  shows "tc \<noteq> []" and "is_digit (hd tc)" and "is_digit (last tc)"
proof -
  from assms obtain h m where hm: "digits 1 h \<or> digits 2 h" "digits 2 m"
    and tc: "tc = h @ '':'' @ m \<or> (\<exists>s. digits 2 s \<and> tc = h @ '':'' @ m @ '':'' @ s)"
    unfolding timecode_form_def by blast
  from hm(1) have h: "h \<noteq> [] \<and> is_digit (hd h)"
  proof
    assume "digits 1 h"
    from digits_ends[OF this] show ?thesis by simp
  next
    assume "digits 2 h"
    from digits_ends[OF this] show ?thesis by simp
  qed
  from digits_ends[OF hm(2)] have m: "m \<noteq> [] \<and> is_digit (last m)" by simp
  from tc have "tc \<noteq> [] \<and> is_digit (hd tc) \<and> is_digit (last tc)"
  proof
    assume "tc = h @ '':'' @ m"
    with h m show ?thesis by simp
  next
    assume "\<exists>s. digits 2 s \<and> tc = h @ '':'' @ m @ '':'' @ s"
    then obtain s where s: "digits 2 s" and t: "tc = h @ '':'' @ m @ '':'' @ s" by blast
    from digits_ends[OF s] have "s \<noteq> [] \<and> is_digit (last s)" by simp
    with h t show ?thesis by simp
  qed
  then show "tc \<noteq> []" and "is_digit (hd tc)" and "is_digit (last tc)" by simp_all
qed

lemma word_after_iff: "\<not> word_after post \<longleftrightarrow> post = [] \<or> \<not> is_word_char (hd post)"
  by (cases post) (simp_all add: word_after_def)

lemma try_timecode_Some:
  assumes h: "h = 1 \<or> h = 2"
  shows "try_timecode h secs s = Some tc \<longleftrightarrow>
           list_all2 atom_ok (timecode_shape h secs) tc \<and> prefix tc s \<and>
           \<not> word_after (drop (length tc) s)"
proof (cases "match_atoms (timecode_shape h secs) s")
  case None
  then have "\<not> (list_all2 atom_ok (timecode_shape h secs) tc \<and> prefix tc s)"
    using match_atoms_Some[of "timecode_shape h secs" s tc] by simp
  with None show ?thesis by (auto simp: try_timecode_def)
next
  case (Some tc')
  then have m: "list_all2 atom_ok (timecode_shape h secs) tc'" "prefix tc' s"
    using match_atoms_Some[of "timecode_shape h secs" s tc'] by simp_all
  with h have "timecode_form tc'" unfolding timecode_form_shape by blast
  then have w: "is_word_char (last tc')"
    by (intro is_digit_word timecode_form_ends)
  have uniq: "list_all2 atom_ok (timecode_shape h secs) tc \<and> prefix tc s \<longleftrightarrow> tc = tc'"
    using match_atoms_Some[of "timecode_shape h secs" s tc] Some by auto
  show ?thesis
    unfolding try_timecode_def Some option.case word_boundary_def word_before_def
    using w uniq by auto
qed

lemma word_after_prefix:
  assumes "timecode_form tc" and "prefix tc s"
  shows "word_after s"
proof -
  from assms(1) have ne: "tc \<noteq> []" and d: "is_digit (hd tc)"
    by (rule timecode_form_ends)+
  from assms(2) obtain post where "s = tc @ post" by (auto simp: prefix_def)
  with ne have "s = hd tc # (tl tc @ post)" by (cases tc) simp_all
  then have "word_after s = is_word_char (hd tc)" by (simp add: word_after_def)
  with d show ?thesis by (simp add: is_digit_word)
qed

lemma timecode_at_sound:
  assumes "timecode_at prev s = Some tc"
  shows "\<not> word_before prev \<and> timecode_form tc \<and> prefix tc s \<and>
         \<not> word_after (drop (length tc) s)"
proof -
  from assms have wb: "word_boundary prev s"
    by (auto simp: timecode_at_def split: if_splits)
  with assms have "try_timecode 2 True s = Some tc \<or> try_timecode 2 False s = Some tc \<or>
                   try_timecode 1 True s = Some tc \<or> try_timecode 1 False s = Some tc"
    by (auto simp: timecode_at_def split: option.splits)
  then obtain h secs where h: "h = 1 \<or> h = 2" and t: "try_timecode h secs s = Some tc"
    by blast
  from t have sh: "list_all2 atom_ok (timecode_shape h secs) tc" "prefix tc s"
    "\<not> word_after (drop (length tc) s)"
    unfolding try_timecode_Some[OF h] by simp_all
  from h sh(1) have f: "timecode_form tc" unfolding timecode_form_shape by blast
  from word_after_prefix[OF f sh(2)] wb have "\<not> word_before prev"
    by (simp add: word_boundary_def)
  with f sh show ?thesis by simp
qed

lemma timecode_at_complete:
  assumes "\<not> word_before prev" and "timecode_form tc" and "prefix tc s"
    and "\<not> word_after (drop (length tc) s)"
  shows "timecode_at prev s \<noteq> None"
proof -
  from assms(2) obtain h secs where h: "h = 1 \<or> h = 2"
    and sh: "list_all2 atom_ok (timecode_shape h secs) tc"
    unfolding timecode_form_shape by blast
  from sh assms(3,4) have t: "try_timecode h secs s = Some tc"
    unfolding try_timecode_Some[OF h] by simp
  have "try_timecode 2 True s \<noteq> None \<or> try_timecode 2 False s \<noteq> None \<or>
        try_timecode 1 True s \<noteq> None \<or> try_timecode 1 False s \<noteq> None"
  proof (cases secs)
    case True
    then have "secs = True" by simp
    with t have "try_timecode h True s = Some tc" by simp
    with h have "try_timecode 1 True s = Some tc \<or> try_timecode 2 True s = Some tc" by blast
    then show ?thesis by auto
  next
    case False
    then have "secs = False" by simp
    with t have "try_timecode h False s = Some tc" by simp
    with h have "try_timecode 1 False s = Some tc \<or> try_timecode 2 False s = Some tc" by blast
    then show ?thesis by auto
  qed
  moreover have "word_boundary prev s"
    using word_after_prefix[OF assms(2,3)] assms(1) by (simp add: word_boundary_def)
  ultimately show ?thesis
    by (auto simp: timecode_at_def split: option.splits)
qed

lemma timecode_search_sound:
  "timecode_search_from prev s = Some tc \<Longrightarrow>
   \<exists>pre post. s = pre @ tc @ post \<and> timecode_form tc \<and>
     (if pre = [] then \<not> word_before prev else \<not> is_word_char (last pre)) \<and>
     \<not> word_after post"
proof (induction s arbitrary: prev)
  case Nil
  then have "timecode_at prev [] = Some tc" by simp
  from timecode_at_sound[OF this] have "timecode_form tc" and "prefix tc []" by blast+
  then show ?case using timecode_form_ends(1)[of tc] by simp
next
  case (Cons c cs)
  show ?case
  proof (cases "timecode_at prev (c # cs)")
    case (Some tc')
    with Cons.prems have "timecode_at prev (c # cs) = Some tc" by simp
    from timecode_at_sound[OF this]
    have a: "\<not> word_before prev" "timecode_form tc" "prefix tc (c # cs)"
      "\<not> word_after (drop (length tc) (c # cs))" by simp_all
    from a(3) have "c # cs = [] @ tc @ drop (length tc) (c # cs)"
      by (auto simp: prefix_def)
    with a show ?thesis by (intro exI[of _ "[]"] exI[of _ "drop (length tc) (c # cs)"]) simp
  next
    case None
    with Cons.prems have "timecode_search_from (Some c) cs = Some tc" by simp
    from Cons.IH[OF this] obtain pre post where p: "cs = pre @ tc @ post" "timecode_form tc"
      "if pre = [] then \<not> word_before (Some c) else \<not> is_word_char (last pre)"
      "\<not> word_after post" by blast
    have "c # cs = (c # pre) @ tc @ post" using p(1) by simp
    moreover have "\<not> is_word_char (last (c # pre))"
      using p(3) by (cases "pre = []") (simp_all add: word_before_def)
    ultimately show ?thesis using p(2,4)
      by (intro exI[of _ "c # pre"] exI[of _ post]) simp
  qed
qed

lemma timecode_search_complete:
  "timecode_form tc \<Longrightarrow>
   (if pre = [] then \<not> word_before prev else \<not> is_word_char (last pre)) \<Longrightarrow>
   \<not> word_after post \<Longrightarrow>
   timecode_search_from prev (pre @ tc @ post) \<noteq> None"
proof (induction pre arbitrary: prev)
  case Nil
  from Nil(1) have "tc \<noteq> []" by (rule timecode_form_ends)
  then obtain c cs where cs: "tc @ post = c # cs" by (cases tc) simp_all
  have "timecode_at prev (tc @ post) \<noteq> None"
    using Nil by (intro timecode_at_complete[of _ tc]) simp_all
  then show ?case using cs by (auto split: option.splits)
next
  case (Cons p pre)
  have "if pre = [] then \<not> word_before (Some p) else \<not> is_word_char (last pre)"
    using Cons.prems(2) by (cases "pre = []") (simp_all add: word_before_def)
  from Cons.IH[OF Cons.prems(1) this Cons.prems(3)]
  have "timecode_search_from (Some p) (pre @ tc @ post) \<noteq> None" .
  then show ?case by (auto split: option.splits)
qed

lemma str_contains_sublist: "str_contains sub s \<longleftrightarrow> sublist sub s"
proof (induction s)
  case Nil
  show ?case by simp
next
  case (Cons c cs)
  then show ?case by (cases sub) (simp_all add: sublist_code)
qed

lemma segment_marker_search_iff:
  "segment_marker_pattern_search text \<noteq> None \<longleftrightarrow> contains_timecode_token text"
proof
  assume "segment_marker_pattern_search text \<noteq> None"
  then obtain tc where "timecode_search_from None text = Some tc"
    by (auto simp: segment_marker_pattern_search_def)
  from timecode_search_sound[OF this] obtain pre post where
    p: "text = pre @ tc @ post" "timecode_form tc"
       "if pre = [] then \<not> word_before None else \<not> is_word_char (last pre)"
       "\<not> word_after post"
    by blast
  from p(3) have "pre = [] \<or> \<not> is_word_char (last pre)" by (cases "pre = []") simp_all
  moreover from p(4) have "post = [] \<or> \<not> is_word_char (hd post)" by (simp add: word_after_iff)
  ultimately show "contains_timecode_token text"
    unfolding contains_timecode_token_def using p(1,2) by blast
next
  assume "contains_timecode_token text"
  then obtain pre tc post where p: "text = pre @ tc @ post" "timecode_form tc"
    "pre = [] \<or> \<not> is_word_char (last pre)" "post = [] \<or> \<not> is_word_char (hd post)"
    unfolding contains_timecode_token_def by blast
  from p(3) have "if pre = [] then \<not> word_before None else \<not> is_word_char (last pre)"
    by (cases "pre = []") (simp_all add: word_before_def)
  moreover from p(4) have "\<not> word_after post" by (simp add: word_after_iff)
  ultimately have "timecode_search_from None (pre @ tc @ post) \<noteq> None"
    using p(2) by (intro timecode_search_complete)
  with p(1) show "segment_marker_pattern_search text \<noteq> None"
    by (simp add: segment_marker_pattern_search_def)
qed

lemma is_segment_marker_iff:
  "is_segment_marker text \<longleftrightarrow> contains_timecode_token text \<and> contains_dashed_separator text"
  unfolding is_segment_marker_def segment_marker_search_iff str_contains_sublist
    contains_dashed_separator_def sublist_def ..


section \<open>Rows added by one paragraph\<close>

lemma foldl_add_split_content:
  "foldl (\<lambda>t line. add_split_content t [] line None) t0 ls =
     t0 @ map (\<lambda>l. SplitRow None (if l \<noteq> [] then Some l else None)) ls"
  by (induction ls arbitrary: t0) (simp_all add: add_split_content_def)

lemma handle_speaker_rows:
  "\<exists>rows. handle_speaker st text = Inr (st\<lparr>table := table st @ rows\<rparr>) \<and>
          rows \<noteq> [] \<and> list_all is_split_row rows"
proof -
  let ?sp = "if str_split text \<noteq> [] then str_rstrip '':'' (hd (str_split text)) else []"
  let ?cell = "if ?sp \<noteq> [] then Some (?sp, Some (RGBColor 255 0 0)) else None"
  let ?content = "str_strip (str_join '' '' (tl (str_split text)))"
  show ?thesis
  proof (cases "?content = []")
    case True
    then have "handle_speaker st text = Inr (st\<lparr>table := table st @ [SplitRow ?cell None]\<rparr>)"
      by (simp add: handle_speaker_def Let_def add_split_content_def)
    then show ?thesis by (intro exI[of _ "[SplitRow ?cell None]"]) simp
  next
    case False
    then have "split_text_into_lines ?content MAX_LINE_LENGTH \<noteq> []"
      by (intro split_text_into_lines_nonempty str_strip_nonspace)
    then obtain l ls where ls: "split_text_into_lines ?content MAX_LINE_LENGTH = l # ls"
      by (auto simp: neq_Nil_conv)
    let ?rows = "SplitRow ?cell (if l \<noteq> [] then Some l else None) #
                 map (\<lambda>l. SplitRow None (if l \<noteq> [] then Some l else None)) ls"
    from False ls have "handle_speaker st text = Inr (st\<lparr>table := table st @ ?rows\<rparr>)"
      unfolding handle_speaker_def Let_def foldl_add_split_content
      by (simp add: add_split_content_def)
    moreover have "list_all is_split_row ?rows" by (simp add: list_all_iff)
    ultimately show ?thesis by (intro exI[of _ ?rows]) simp
  qed
qed

lemma process_line_marker:
  assumes "is_segment_marker text"
  shows "\<exists>tc. segment_marker_pattern_search text = Some tc \<and>
           process_line sep st text =
             Inr (st\<lparr>segment_count := segment_count st + 1,
                     table := table st @
                       [MergedRow (replicate (nat sep) CHR ''-'') False,
                        MergedRow (segment_text sep tc (segment_count st + 1)) True]\<rparr>)"
proof -
  from assms obtain tc where "segment_marker_pattern_search text = Some tc"
    by (auto simp: is_segment_marker_def)
  with assms show ?thesis by (simp add: process_line_def handle_segment_marker_eq)
qed

lemma process_line_speaker:
  assumes "\<not> is_segment_marker text" and "speaker_pattern_match (remove_timecode text)"
  shows "\<exists>rows. process_line sep st text = Inr (st\<lparr>table := table st @ rows\<rparr>) \<and>
           rows \<noteq> [] \<and> list_all is_split_row rows"
  using assms handle_speaker_rows[of st "remove_timecode text"]
  by (simp add: process_line_def Let_def)

lemma process_line_plain:
  assumes "\<not> is_segment_marker text" and "\<not> speaker_pattern_match (remove_timecode text)"
  shows "process_line sep st text =
           Inr (st\<lparr>table := table st @
                  (if remove_timecode text = [] then []
                   else [SplitRow None (Some (remove_timecode text))])\<rparr>)"
  using assms by (simp add: process_line_def Let_def handle_plain_def add_split_content_def)

lemma process_line_non_marker:
  assumes "\<not> is_segment_marker text"
  shows "\<exists>rows. process_line sep st text = Inr (st\<lparr>table := table st @ rows\<rparr>) \<and>
           list_all is_split_row rows"
proof (cases "speaker_pattern_match (remove_timecode text)")
  case True
  from process_line_speaker[OF assms True] show ?thesis by blast
next
  case False
  let ?rows = "if remove_timecode text = [] then []
               else [SplitRow None (Some (remove_timecode text))]"
  have "list_all is_split_row ?rows" by simp
  with process_line_plain[OF assms False, of sep st] show ?thesis
    by (intro exI[of _ ?rows]) simp
qed

lemma process_paragraph_marker:
  assumes "is_segment_marker (str_strip p)"
    and "segment_marker_pattern_search (str_strip p) = Some tc"
  shows "process_paragraph sep st p =
           Inr (st\<lparr>segment_count := segment_count st + 1, skip_pages := False,
                   table := table st @
                     [MergedRow (replicate (nat sep) CHR ''-'') False,
                      MergedRow (segment_text sep tc (segment_count st + 1)) True]\<rparr>)"
proof (cases "skip_pages st")
  case True
  with assms show ?thesis
    by (simp add: process_paragraph_def Let_def process_line_def handle_segment_marker_eq)
next
  case False
  then have "st\<lparr>skip_pages := False\<rparr> = st" by simp
  with False assms show ?thesis
    by (simp add: process_paragraph_def Let_def process_line_def handle_segment_marker_eq)
qed

lemma segment_marker_timecode:
  "is_segment_marker text \<Longrightarrow> \<exists>tc. segment_marker_pattern_search text = Some tc"
  by (auto simp: is_segment_marker_def)

lemma process_paragraph_skipped:
  "skip_pages st \<Longrightarrow> \<not> is_segment_marker (str_strip p) \<Longrightarrow> process_paragraph sep st p = Inr st"
  by (simp add: process_paragraph_def Let_def)

lemma process_paragraph_running:
  "\<not> skip_pages st \<Longrightarrow> process_paragraph sep st p = process_line sep st (str_strip p)"
  by (simp add: process_paragraph_def Let_def)

lemma process_paragraph_non_marker:
  assumes "\<not> is_segment_marker (str_strip p)"
  shows "\<exists>rows. process_paragraph sep st p = Inr (st\<lparr>table := table st @ rows\<rparr>) \<and>
           list_all is_split_row rows"
proof (cases "skip_pages st")
  case True
  with assms have "process_paragraph sep st p = Inr (st\<lparr>table := table st @ []\<rparr>)"
    by (simp add: process_paragraph_skipped)
  then show ?thesis by (intro exI[of _ "[]"]) simp
next
  case False
  with process_line_non_marker[OF assms, of sep st] show ?thesis
    by (simp add: process_paragraph_running)
qed


section \<open>Claims on segment markers\<close>

text \<open>
  C3. A paragraph is treated as a segment marker if and only if its stripped text contains
  both a timecode token (one or two digits, a colon and two digits, optionally a colon and two
  more digits, with no word character next to it) and the dashed separator of ten hyphens;
  each such paragraph adds to the table a merged full-width row of dashes followed by a merged
  bold header row, and no other paragraph adds a merged row.
\<close>

theorem segment_marker_iff_token_and_dashes:
  "(is_segment_marker (str_strip para_text) \<longleftrightarrow>
      contains_timecode_token (str_strip para_text) \<and>
      contains_dashed_separator (str_strip para_text)) \<and>
   (is_segment_marker (str_strip para_text) \<longrightarrow>
      (\<exists>header st'. process_paragraph separator_length st para_text = Inr st' \<and>
         table st' = table st @
           [MergedRow (replicate (nat separator_length) CHR ''-'') False,
            MergedRow header True])) \<and>
   (\<not> is_segment_marker (str_strip para_text) \<longrightarrow>
      (\<exists>rows st'. process_paragraph separator_length st para_text = Inr st' \<and>
         table st' = table st @ rows \<and> list_all is_split_row rows))"
proof (intro conjI impI)
  show "is_segment_marker (str_strip para_text) \<longleftrightarrow>
          contains_timecode_token (str_strip para_text) \<and>
          contains_dashed_separator (str_strip para_text)"
    by (rule is_segment_marker_iff)
next
  assume m: "is_segment_marker (str_strip para_text)"
  then obtain tc where tc: "segment_marker_pattern_search (str_strip para_text) = Some tc"
    using segment_marker_timecode by blast
  let ?st' = "st\<lparr>segment_count := segment_count st + 1, skip_pages := False,
                 table := table st @
                   [MergedRow (replicate (nat separator_length) CHR ''-'') False,
                    MergedRow (segment_text separator_length tc (segment_count st + 1)) True]\<rparr>"
  have "process_paragraph separator_length st para_text = Inr ?st'"
    by (rule process_paragraph_marker[OF m tc])
  moreover have "table ?st' = table st @
      [MergedRow (replicate (nat separator_length) CHR ''-'') False,
       MergedRow (segment_text separator_length tc (segment_count st + 1)) True]"
    by simp
  ultimately
  show "\<exists>header st'. process_paragraph separator_length st para_text = Inr st' \<and>
          table st' = table st @
            [MergedRow (replicate (nat separator_length) CHR ''-'') False,
             MergedRow header True]"
    by blast
next
  assume "\<not> is_segment_marker (str_strip para_text)"
  from process_paragraph_non_marker[OF this, of separator_length st]
  obtain rows where r: "process_paragraph separator_length st para_text =
      Inr (st\<lparr>table := table st @ rows\<rparr>)" "list_all is_split_row rows"
    by blast
  have "table (st\<lparr>table := table st @ rows\<rparr>) = table st @ rows" by simp
  with r
  show "\<exists>rows st'. process_paragraph separator_length st para_text = Inr st' \<and>
          table st' = table st @ rows \<and> list_all is_split_row rows"
    by blast
qed

theorem segment_marker_iff_token_and_dashes_witness:
  "is_segment_marker (str_strip '' 0:15 ---------- intro'') \<and>
   contains_timecode_token (str_strip '' 0:15 ---------- intro'') \<and>
   contains_dashed_separator (str_strip '' 0:15 ---------- intro'') \<and>
   (\<exists>header st'. process_paragraph 104 initial_state '' 0:15 ---------- intro'' = Inr st' \<and>
      table st' = table initial_state @
        [MergedRow (replicate (nat 104) CHR ''-'') False, MergedRow header True]) \<and>
   \<not> is_segment_marker (str_strip ''JOHN: 0:15 hi'') \<and>
   (\<exists>rows st'. process_paragraph 104 initial_state ''JOHN: 0:15 hi'' = Inr st' \<and>
      table st' = table initial_state @ rows \<and> list_all is_split_row rows)"
proof -
  have m: "is_segment_marker (str_strip '' 0:15 ---------- intro'')"
    by code_simp
  have n: "\<not> is_segment_marker (str_strip ''JOHN: 0:15 hi'')"
    by code_simp
  note t = segment_marker_iff_token_and_dashes
             [of "'' 0:15 ---------- intro''" 104 initial_state]
  note u = segment_marker_iff_token_and_dashes [of "''JOHN: 0:15 hi''" 104 initial_state]
  from t m have "contains_timecode_token (str_strip '' 0:15 ---------- intro'')"
    and "contains_dashed_separator (str_strip '' 0:15 ---------- intro'')"
    and "\<exists>header st'. process_paragraph 104 initial_state '' 0:15 ---------- intro'' = Inr st' \<and>
      table st' = table initial_state @
        [MergedRow (replicate (nat 104) CHR ''-'') False, MergedRow header True]"
    by blast+
  moreover from u n
  have "\<exists>rows st'. process_paragraph 104 initial_state ''JOHN: 0:15 hi'' = Inr st' \<and>
      table st' = table initial_state @ rows \<and> list_all is_split_row rows"
    by blast
  ultimately show ?thesis using m n by blast
qed

section \<open>The segment counter\<close>

lemma dec_digits_small: "n < 10 \<Longrightarrow> dec_digits n = [''0123456789'' ! n]"
  by (subst dec_digits.simps) simp

lemma dec_digits_step:
  "10 \<le> n \<Longrightarrow> dec_digits n = dec_digits (n div 10) @ [''0123456789'' ! (n mod 10)]"
  by (subst dec_digits.simps) simp

lemma dec_digits_nonempty: "dec_digits n \<noteq> []"
  by (subst dec_digits.simps) simp

lemma length_dec_digits_ge_2: "10 \<le> n \<Longrightarrow> 2 \<le> length (dec_digits n)"
proof -
  assume n: "10 \<le> n"
  have "dec_digits (n div 10) \<noteq> []" by (rule dec_digits_nonempty)
  then obtain x xs where "dec_digits (n div 10) = x # xs" by (auto simp: neq_Nil_conv)
  then show ?thesis unfolding dec_digits_step[OF n] by simp
qed

lemma length_dec_digits_ge_3: "100 \<le> n \<Longrightarrow> 3 \<le> length (dec_digits n)"
proof -
  assume n: "100 \<le> n"
  then have "10 \<le> n" and "10 \<le> n div 10" by simp_all
  from length_dec_digits_ge_2[OF this(2)] show ?thesis
    unfolding dec_digits_step[OF \<open>10 \<le> n\<close>] by simp
qed

lemma format_02d_below_100:
  "n < 100 \<Longrightarrow> format_02d n = [''0123456789'' ! (n div 10), ''0123456789'' ! (n mod 10)]"
proof (cases "n < 10")
  case True
  then show ?thesis by (simp add: format_02d_def dec_digits_small)
next
  case False
  assume "n < 100"
  with False have "10 \<le> n" and "n div 10 < 10" by simp_all
  then show ?thesis by (simp add: format_02d_def dec_digits_step dec_digits_small)
qed

lemma format_02d_from_100:
  "100 \<le> n \<Longrightarrow> format_02d n = dec_digits n \<and> 3 \<le> length (format_02d n)"
  using length_dec_digits_ge_3[of n] by (simp add: format_02d_def Let_def)

lemma process_paragraph_count:
  "\<exists>st'. process_paragraph sep st p = Inr st' \<and>
     segment_count st' = segment_count st + (if is_segment_marker (str_strip p) then 1 else 0)"
proof (cases "is_segment_marker (str_strip p)")
  case True
  then obtain tc where "segment_marker_pattern_search (str_strip p) = Some tc"
    using segment_marker_timecode by blast
  from process_paragraph_marker[OF True this, of sep st] True show ?thesis by simp
next
  case False
  from process_paragraph_non_marker[OF False, of sep st] False show ?thesis by auto
qed

lemma process_paragraphs_count:
  "\<exists>st'. process_paragraphs sep st ps = Inr st' \<and>
     segment_count st' =
       segment_count st + length (filter (\<lambda>p. is_segment_marker (str_strip p)) ps)"
proof (induction ps arbitrary: st)
  case Nil
  show ?case by simp
next
  case (Cons p ps)
  from process_paragraph_count[of sep st p] obtain st1 where
    s1: "process_paragraph sep st p = Inr st1"
        "segment_count st1 =
           segment_count st + (if is_segment_marker (str_strip p) then 1 else 0)"
    by blast
  from Cons[of st1] obtain st2 where
    s2: "process_paragraphs sep st1 ps = Inr st2"
        "segment_count st2 =
           segment_count st1 + length (filter (\<lambda>p. is_segment_marker (str_strip p)) ps)"
    by blast
  from s1 s2 show ?case by simp
qed

lemma nth_marker_header:
  assumes "is_segment_marker (str_strip p)"
    and "segment_marker_pattern_search (str_strip p) = Some tc"
  shows "\<exists>st'. process_paragraphs sep st (ps @ [p]) = Inr st' \<and>
           segment_count st' =
             Suc (segment_count st + length (filter (\<lambda>p. is_segment_marker (str_strip p)) ps)) \<and>
           last (table st') = MergedRow (segment_text sep tc (segment_count st')) True"
proof -
  from process_paragraphs_count[of sep st ps] obtain st1 where
    s1: "process_paragraphs sep st ps = Inr st1"
        "segment_count st1 =
           segment_count st + length (filter (\<lambda>p. is_segment_marker (str_strip p)) ps)"
    by blast
  from s1 process_paragraph_marker[OF assms, of sep st1] show ?thesis
    by (simp add: process_paragraphs_append)
qed

lemma segment_marker_timecode_token:
  assumes "segment_marker_pattern_search text = Some tc"
  shows "timecode_form tc \<and> sublist tc text"
proof -
  from assms have "timecode_search_from None text = Some tc"
    by (simp add: segment_marker_pattern_search_def)
  from timecode_search_sound[OF this] show ?thesis
    unfolding sublist_def by blast
qed


section \<open>Claims on the segment counter\<close>

text \<open>
  C7, amended. Throughout the loop the segment counter equals the number of segment-marker
  lines met so far, and the n-th segment marker adds a bold header row whose text is that
  marker's timecode, padding blanks, one blank and n in decimal, padded with zeros to at least
  two digits: exactly two digits for n below 100, three or more from the hundredth marker on.
\<close>

theorem segment_counter_and_header:
  "(\<exists>st. process_paragraphs separator_length initial_state ps = Inr st \<and>
      segment_count st = length (filter (\<lambda>p. is_segment_marker (str_strip p)) ps)) \<and>
   (is_segment_marker (str_strip p) \<longrightarrow>
      (\<exists>st tc. process_paragraphs separator_length initial_state (ps @ [p]) = Inr st \<and>
         segment_marker_pattern_search (str_strip p) = Some tc \<and>
         timecode_form tc \<and> sublist tc (str_strip p) \<and>
         segment_count st = Suc (length (filter (\<lambda>p. is_segment_marker (str_strip p)) ps)) \<and>
         last (table st) =
           MergedRow (tc @ replicate (nat (separator_length - int (length tc) - 2 + 26)) CHR '' ''
                         @ '' '' @ format_02d (segment_count st)) True)) \<and>
   (n < 100 \<longrightarrow> format_02d n = [''0123456789'' ! (n div 10), ''0123456789'' ! (n mod 10)]) \<and>
   (100 \<le> n \<longrightarrow> format_02d n = dec_digits n \<and> 3 \<le> length (format_02d n))"
proof (intro conjI impI)
  from process_paragraphs_count[of separator_length initial_state ps]
  show "\<exists>st. process_paragraphs separator_length initial_state ps = Inr st \<and>
      segment_count st = length (filter (\<lambda>p. is_segment_marker (str_strip p)) ps)"
    by (simp add: initial_state_def)
next
  assume m: "is_segment_marker (str_strip p)"
  then obtain tc where tc: "segment_marker_pattern_search (str_strip p) = Some tc"
    using segment_marker_timecode by blast
  from nth_marker_header[OF m tc, of separator_length initial_state ps] obtain st where
    st: "process_paragraphs separator_length initial_state (ps @ [p]) = Inr st"
        "segment_count st = Suc (length (filter (\<lambda>p. is_segment_marker (str_strip p)) ps))"
        "last (table st) = MergedRow (segment_text separator_length tc (segment_count st)) True"
    by (auto simp: initial_state_def)
  from st(3) have "last (table st) =
      MergedRow (tc @ replicate (nat (separator_length - int (length tc) - 2 + 26)) CHR '' ''
                    @ '' '' @ format_02d (segment_count st)) True"
    by (simp add: segment_text_def Let_def)
  with st(1,2) tc segment_marker_timecode_token[OF tc]
  show "\<exists>st tc. process_paragraphs separator_length initial_state (ps @ [p]) = Inr st \<and>
         segment_marker_pattern_search (str_strip p) = Some tc \<and>
         timecode_form tc \<and> sublist tc (str_strip p) \<and>
         segment_count st = Suc (length (filter (\<lambda>p. is_segment_marker (str_strip p)) ps)) \<and>
         last (table st) =
           MergedRow (tc @ replicate (nat (separator_length - int (length tc) - 2 + 26)) CHR '' ''
                         @ '' '' @ format_02d (segment_count st)) True"
    by blast
next
  assume "n < 100"
  then show "format_02d n = [''0123456789'' ! (n div 10), ''0123456789'' ! (n mod 10)]"
    by (rule format_02d_below_100)
next
  assume "100 \<le> n"
  then show "format_02d n = dec_digits n" using format_02d_from_100 by blast
next
  assume "100 \<le> n"
  then show "3 \<le> length (format_02d n)" using format_02d_from_100 by blast
qed

theorem segment_counter_and_header_witness:
  "(\<exists>st. process_paragraphs 104 initial_state [''intro'', ''0:15 ----------''] = Inr st \<and>
      segment_count st = 1) \<and>
   is_segment_marker (str_strip ''1:02:03 ---------- x'') \<and>
   (\<exists>st. process_paragraphs 104 initial_state
            ([''intro'', ''0:15 ----------''] @ [''1:02:03 ---------- x'']) = Inr st \<and>
      segment_count st = 2 \<and>
      last (table st) = MergedRow (''1:02:03'' @ replicate 121 CHR '' '' @ '' 02'') True) \<and>
   format_02d 7 = ''07'' \<and>
   format_02d 100 = dec_digits 100 \<and> 3 \<le> length (format_02d 100)"
proof -
  let ?ps = "[''intro'', ''0:15 ----------'']"
  let ?p = "''1:02:03 ---------- x''"
  have cnt: "length (filter (\<lambda>p. is_segment_marker (str_strip p)) ?ps) = 1"
    by code_simp
  have m: "is_segment_marker (str_strip ?p)"
    by code_simp
  have tc: "segment_marker_pattern_search (str_strip ?p) = Some ''1:02:03''"
    by code_simp
  note t = segment_counter_and_header [of 104 ?ps ?p 7, unfolded cnt]
  note u = segment_counter_and_header [of 104 ?ps ?p 100]
  from t have a: "\<exists>st. process_paragraphs 104 initial_state ?ps = Inr st \<and>
      segment_count st = 1"
    by blast
  from t m obtain st tc' where st:
    "process_paragraphs 104 initial_state (?ps @ [?p]) = Inr st"
    "segment_marker_pattern_search (str_strip ?p) = Some tc'"
    "segment_count st = Suc 1"
    "last (table st) =
       MergedRow (tc' @ replicate (nat (104 - int (length tc') - 2 + 26)) CHR '' ''
                     @ '' '' @ format_02d (segment_count st)) True"
    by blast
  from st(2) tc have tc': "tc' = ''1:02:03''" by simp
  from st(3) have two: "segment_count st = 2" by simp
  have f2: "format_02d 2 = ''02''" by code_simp
  from st(4) have "last (table st) =
      MergedRow (''1:02:03'' @ replicate 121 CHR '' '' @ '' 02'') True"
    unfolding tc' two f2 by simp
  with st(1) two have b: "\<exists>st. process_paragraphs 104 initial_state (?ps @ [?p]) = Inr st \<and>
      segment_count st = 2 \<and>
      last (table st) = MergedRow (''1:02:03'' @ replicate 121 CHR '' '' @ '' 02'') True"
    by blast
  have "(7::nat) < 100" by simp
  with t have "format_02d 7 = [''0123456789'' ! (7 div 10), ''0123456789'' ! (7 mod 10)]"
    by blast
  then have c: "format_02d 7 = ''07''" by simp
  have "(100::nat) \<le> 100" by simp
  with u have d: "format_02d 100 = dec_digits 100" "3 \<le> length (format_02d 100)" by blast+
  from a m b c d show ?thesis by blast
qed

text \<open>
  As first stated, C7 has the header end with n formatted as a two-digit number. A document
  with a hundred segment markers shows otherwise: the hundredth header ends with three digits.
\<close>

theorem hundredth_header_counterexample:
  "map_sum id (\<lambda>st. (segment_count st, last (table st)))
     (process_paragraphs 104 initial_state (replicate 100 ''0:00 ----------'')) =
     Inr (100, MergedRow (''0:00'' @ replicate 124 CHR '' '' @ '' 100'') True) \<and>
   format_02d 100 = ''100'' \<and> length (format_02d 100) = 3"
proof -
  let ?p = "''0:00 ----------''"
  have m: "is_segment_marker (str_strip ?p)"
    by code_simp
  have tc: "segment_marker_pattern_search (str_strip ?p) = Some ''0:00''"
    by code_simp
  have e: "(100::nat) = Suc 99" by simp
  have "replicate (Suc 99) ?p = replicate 99 ?p @ [?p]"
    unfolding replicate_append_same by (rule replicate_Suc)
  then have r: "replicate 100 ?p = replicate 99 ?p @ [?p]"
    unfolding e .
  have cnt: "length (filter (\<lambda>p. is_segment_marker (str_strip p)) (replicate 99 ?p)) = 99"
    using m by simp
  from nth_marker_header[OF m tc, of 104 initial_state "replicate 99 ?p"] obtain st where st:
    "process_paragraphs 104 initial_state (replicate 99 ?p @ [?p]) = Inr st"
    "segment_count st =
       Suc (segment_count initial_state +
            length (filter (\<lambda>p. is_segment_marker (str_strip p)) (replicate 99 ?p)))"
    "last (table st) = MergedRow (segment_text 104 ''0:00'' (segment_count st)) True"
    by blast
  from st(2) have c: "segment_count st = 100"
    unfolding cnt by (simp add: initial_state_def)
  have f: "format_02d 100 = ''100''" by code_simp
  have s: "segment_text 104 ''0:00'' 100 = ''0:00'' @ replicate 124 CHR '' '' @ '' 100''"
    unfolding segment_text_def f by simp
  from st(3) have l: "last (table st) =
      MergedRow (''0:00'' @ replicate 124 CHR '' '' @ '' 100'') True"
    unfolding c s .
  from st(1) c l have "map_sum id (\<lambda>st. (segment_count st, last (table st)))
     (process_paragraphs 104 initial_state (replicate 100 ?p)) =
     Inr (100, MergedRow (''0:00'' @ replicate 124 CHR '' '' @ '' 100'') True)"
    unfolding r by simp
  moreover have "length (format_02d 100) = 3" unfolding f by simp
  ultimately show ?thesis using f by blast
qed

section \<open>Claims on the classification of paragraphs\<close>

lemma process_paragraphs_skip:
  "skip_pages st \<Longrightarrow> \<forall>p\<in>set pre. \<not> is_segment_marker (str_strip p) \<Longrightarrow>
   process_paragraphs sep st (pre @ rest) = process_paragraphs sep st rest"
  by (induction pre) (simp_all add: process_paragraph_skipped)

lemma process_paragraph_classified:
  assumes "\<not> skip_pages st \<or> is_segment_marker (str_strip p)"
  shows "\<exists>rows. process_paragraph sep st p =
           Inr (st\<lparr>segment_count :=
                     segment_count st + (if classify (str_strip p) = SegmentMarker then 1 else 0),
                   skip_pages := False, table := table st @ rows\<rparr>) \<and>
           (case classify (str_strip p) of
              SegmentMarker \<Rightarrow> length rows = 2 \<and> list_all is_merged_row rows
            | SpeakerLine \<Rightarrow> rows \<noteq> [] \<and> list_all is_split_row rows
            | PlainLine \<Rightarrow>
                rows = (if remove_timecode (str_strip p) = [] then []
                        else [SplitRow None (Some (remove_timecode (str_strip p)))]))"
proof (cases "is_segment_marker (str_strip p)")
  case True
  then obtain tc where tc: "segment_marker_pattern_search (str_strip p) = Some tc"
    using segment_marker_timecode by blast
  let ?rows = "[MergedRow (replicate (nat sep) CHR ''-'') False,
                MergedRow (segment_text sep tc (segment_count st + 1)) True]"
  have k: "classify (str_strip p) = SegmentMarker" using True by (simp add: classify_def)
  have "process_paragraph sep st p =
          Inr (st\<lparr>segment_count := segment_count st + 1, skip_pages := False,
                  table := table st @ ?rows\<rparr>)"
    by (rule process_paragraph_marker[OF True tc])
  then show ?thesis unfolding k by (intro exI[of _ ?rows]) simp
next
  case False
  with assms have run: "\<not> skip_pages st" by blast
  then have same: "st\<lparr>segment_count := segment_count st + 0, skip_pages := False,
                       table := t\<rparr> = st\<lparr>table := t\<rparr>" for t
    by simp
  show ?thesis
  proof (cases "speaker_pattern_match (remove_timecode (str_strip p))")
    case True
    with False have k: "classify (str_strip p) = SpeakerLine" by (simp add: classify_def)
    from process_line_speaker[OF False True, of sep st] obtain rows where
      "process_line sep st (str_strip p) = Inr (st\<lparr>table := table st @ rows\<rparr>)"
      "rows \<noteq> []" "list_all is_split_row rows"
      by blast
    with run show ?thesis unfolding k
      by (intro exI[of _ rows]) (simp add: process_paragraph_running same)
  next
    case nosp: False
    with False have k: "classify (str_strip p) = PlainLine" by (simp add: classify_def)
    let ?rows = "if remove_timecode (str_strip p) = [] then []
                 else [SplitRow None (Some (remove_timecode (str_strip p)))]"
    from process_line_plain[OF False nosp, of sep st] run show ?thesis unfolding k
      by (intro exI[of _ ?rows]) (simp add: process_paragraph_running same)
  qed
qed

text \<open>
  C6, amended. Paragraphs before the first segment marker are skipped: they are not
  classified and add nothing to the table. Every paragraph from the first segment marker on is
  handled as exactly one of segment marker, speaker line or plain line: a segment marker adds
  two merged rows, a speaker line adds at least one two-cell row, and a plain line adds one
  two-cell row holding its text, unless that text is empty, in which case it adds nothing.
\<close>

theorem paragraphs_classified_after_first_marker:
  "((\<forall>p\<in>set pre. \<not> is_segment_marker (str_strip p)) \<longrightarrow>
      process_paragraphs separator_length initial_state (pre @ rest) =
      process_paragraphs separator_length initial_state rest) \<and>
   (skip_pages st \<and> \<not> is_segment_marker (str_strip para_text) \<longrightarrow>
      process_paragraph separator_length st para_text = Inr st) \<and>
   (\<not> skip_pages st \<or> is_segment_marker (str_strip para_text) \<longrightarrow>
      (\<exists>rows. process_paragraph separator_length st para_text =
           Inr (st\<lparr>segment_count :=
                     segment_count st +
                       (if classify (str_strip para_text) = SegmentMarker then 1 else 0),
                   skip_pages := False, table := table st @ rows\<rparr>) \<and>
           (case classify (str_strip para_text) of
              SegmentMarker \<Rightarrow> length rows = 2 \<and> list_all is_merged_row rows
            | SpeakerLine \<Rightarrow> rows \<noteq> [] \<and> list_all is_split_row rows
            | PlainLine \<Rightarrow>
                rows = (if remove_timecode (str_strip para_text) = [] then []
                        else [SplitRow None (Some (remove_timecode (str_strip para_text)))]))))"
proof (intro conjI impI)
  assume "\<forall>p\<in>set pre. \<not> is_segment_marker (str_strip p)"
  then show "process_paragraphs separator_length initial_state (pre @ rest) =
      process_paragraphs separator_length initial_state rest"
    by (intro process_paragraphs_skip) (simp_all add: initial_state_def)
next
  assume "skip_pages st \<and> \<not> is_segment_marker (str_strip para_text)"
  then show "process_paragraph separator_length st para_text = Inr st"
    by (simp add: process_paragraph_skipped)
next
  assume "\<not> skip_pages st \<or> is_segment_marker (str_strip para_text)"
  then show "\<exists>rows. process_paragraph separator_length st para_text =
           Inr (st\<lparr>segment_count :=
                     segment_count st +
                       (if classify (str_strip para_text) = SegmentMarker then 1 else 0),
                   skip_pages := False, table := table st @ rows\<rparr>) \<and>
           (case classify (str_strip para_text) of
              SegmentMarker \<Rightarrow> length rows = 2 \<and> list_all is_merged_row rows
            | SpeakerLine \<Rightarrow> rows \<noteq> [] \<and> list_all is_split_row rows
            | PlainLine \<Rightarrow>
                rows = (if remove_timecode (str_strip para_text) = [] then []
                        else [SplitRow None (Some (remove_timecode (str_strip para_text)))]))"
    by (rule process_paragraph_classified)
qed

theorem paragraphs_classified_after_first_marker_witness:
  "\<not> is_segment_marker (str_strip ''Title page'') \<and>
   process_paragraphs 104 initial_state ([''Title page''] @ [''0:15 ----------'', ''MARY hums'']) =
     process_paragraphs 104 initial_state [''0:15 ----------'', ''MARY hums''] \<and>
   process_paragraph 104 initial_state ''Title page'' = Inr initial_state \<and>
   classify (str_strip ''(laughs)'') = PlainLine \<and>
   remove_timecode (str_strip ''(laughs)'') = ''(laughs)'' \<and>
   process_paragraph 104 \<lparr>segment_count = 1, skip_pages = False, table = []\<rparr> ''(laughs)'' =
     Inr \<lparr>segment_count = 1, skip_pages = False, table = [SplitRow None (Some ''(laughs)'')]\<rparr>"
proof -
  let ?st = "\<lparr>segment_count = 1, skip_pages = False, table = []\<rparr>"
  have n: "\<not> is_segment_marker (str_strip ''Title page'')" by code_simp
  have k: "classify (str_strip ''(laughs)'') = PlainLine" by code_simp
  have r: "remove_timecode (str_strip ''(laughs)'') = ''(laughs)''" by code_simp
  note t = paragraphs_classified_after_first_marker
     [of "[''Title page'']" 104 "[''0:15 ----------'', ''MARY hums'']" initial_state "''Title page''"]
  note u = paragraphs_classified_after_first_marker
     [of "[]" 104 "[]" ?st "''(laughs)''", unfolded k r]
  have "\<forall>p\<in>set [''Title page'']. \<not> is_segment_marker (str_strip p)" using n by simp
  with t have a: "process_paragraphs 104 initial_state
       ([''Title page''] @ [''0:15 ----------'', ''MARY hums'']) =
     process_paragraphs 104 initial_state [''0:15 ----------'', ''MARY hums'']"
    by blast
  have "skip_pages initial_state" by (simp add: initial_state_def)
  with t n have b: "process_paragraph 104 initial_state ''Title page'' = Inr initial_state"
    by blast
  have "\<not> skip_pages ?st" by simp
  with u obtain rows where rows: "process_paragraph 104 ?st ''(laughs)'' =
       Inr (?st\<lparr>segment_count := segment_count ?st + (if PlainLine = SegmentMarker then 1 else 0),
               skip_pages := False, table := table ?st @ rows\<rparr>)"
      "(case PlainLine of
          SegmentMarker \<Rightarrow> length rows = 2 \<and> list_all is_merged_row rows
        | SpeakerLine \<Rightarrow> rows \<noteq> [] \<and> list_all is_split_row rows
        | PlainLine \<Rightarrow> rows = (if ''(laughs)'' = [] then [] else [SplitRow None (Some ''(laughs)'')]))"
    by blast
  from rows(2) have "rows = [SplitRow None (Some ''(laughs)'')]" by simp
  with rows(1) have c: "process_paragraph 104 ?st ''(laughs)'' =
     Inr \<lparr>segment_count = 1, skip_pages = False, table = [SplitRow None (Some ''(laughs)'')]\<rparr>"
    by simp
  from n a b k r c show ?thesis by blast
qed

text \<open>
  As first stated, C6 has every paragraph classified and re-emitted. A speaker line before the
  first segment marker adds no row, and neither does a blank paragraph after it.
\<close>

theorem paragraph_not_emitted_counterexample:
  "process_paragraphs 104 initial_state [''JOHN: hello''] = Inr initial_state \<and>
   table initial_state = [] \<and>
   process_paragraphs 104 initial_state [''0:15 ----------'', ''   ''] =
     process_paragraphs 104 initial_state [''0:15 ----------'']"
proof -
  have a: "process_paragraphs 104 initial_state [''JOHN: hello''] = Inr initial_state"
    by code_simp
  have b: "table initial_state = []" by (simp add: initial_state_def)
  have c: "process_paragraphs 104 initial_state [''0:15 ----------'', ''   ''] =
     process_paragraphs 104 initial_state [''0:15 ----------'']"
    by code_simp
  from a b c show ?thesis by blast
qed

section \<open>Claims on files\<close>

lemma str_endswith_append: "str_endswith (s @ suf) suf"
  by (simp add: str_endswith_def)

lemma docx_path_endswith: "str_endswith (docx_path output_file) ''.docx''"
proof (cases "str_endswith output_file ''.docx''")
  case True
  then show ?thesis by (simp add: docx_path_def)
next
  case False
  then have "docx_path output_file = output_file @ ''.docx''" by (simp add: docx_path_def)
  then show ?thesis using str_endswith_append[of output_file "''.docx''"] by simp
qed

lemma process_docx_missing:
  "input_file \<notin> existing w \<Longrightarrow>
   process_docx env input_file output_file w = (Inl FileNotFoundError, w)"
  by (simp add: process_docx_def)

lemma process_docx_open_fails:
  "input_file \<in> existing w \<Longrightarrow> document_paragraphs env input_file = Inl e \<Longrightarrow>
   process_docx env input_file output_file w = (Inl e, w)"
  by (simp add: process_docx_def)

lemma process_docx_opened:
  assumes "input_file \<in> existing w" and "document_paragraphs env input_file = Inr ps"
  shows "process_docx env input_file output_file w =
       (case save_raises env (docx_path output_file) of
          Some e \<Rightarrow> (Inl e, w)
        | None \<Rightarrow>
            (Inr (docx_path output_file),
             w\<lparr>existing := insert (docx_path output_file) (existing w),
               saved := saved w @
                 [(docx_path output_file, output_table (available_width env + 4) ps)]\<rparr>))"
proof -
  from process_paragraphs_total obtain st where
    st: "process_paragraphs (available_width env + 4) initial_state ps = Inr st"
    by blast
  with assms show ?thesis
    by (simp add: process_docx_def Let_def output_table_def split: option.split)
qed

lemma process_docx_returns:
  assumes "fst (process_docx env input_file output_file w) = Inr path"
  shows "path = docx_path output_file \<and>
         (\<exists>ps. document_paragraphs env input_file = Inr ps \<and>
            snd (process_docx env input_file output_file w) =
              w\<lparr>existing := insert path (existing w),
                saved := saved w @ [(path, output_table (available_width env + 4) ps)]\<rparr>)"
proof -
  from assms have ex: "input_file \<in> existing w"
    by (cases "input_file \<in> existing w") (simp_all add: process_docx_missing)
  from assms ex obtain ps where ps: "document_paragraphs env input_file = Inr ps"
    by (cases "document_paragraphs env input_file") (simp_all add: process_docx_open_fails)
  note st = process_docx_opened[OF ex ps, of output_file]
  from assms st have none: "save_raises env (docx_path output_file) = None"
    by (cases "save_raises env (docx_path output_file)") simp_all
  with assms st have p: "path = docx_path output_file" by simp
  from st none have "snd (process_docx env input_file output_file w) =
      w\<lparr>existing := insert path (existing w),
        saved := saved w @ [(path, output_table (available_width env + 4) ps)]\<rparr>"
    unfolding p by simp
  with p ps show ?thesis by blast
qed

text \<open>
  C10. \<open>process_docx\<close> saves the output document to \<open>output_file\<close> if that already ends with
  \<open>.docx\<close> and to \<open>output_file\<close> with \<open>.docx\<close> appended otherwise, and returns exactly the
  path it saved to, which therefore always ends with \<open>.docx\<close>. It does return a path whenever
  the input exists and the library raises nothing on opening it or on saving.
\<close>

theorem process_docx_saves_and_returns_docx_path:
  "(fst (process_docx env input_file output_file w) = Inr path \<longrightarrow>
      path = (if str_endswith output_file ''.docx'' then output_file
              else output_file @ ''.docx'') \<and>
      str_endswith path ''.docx'' \<and>
      (\<exists>ps. document_paragraphs env input_file = Inr ps \<and>
         snd (process_docx env input_file output_file w) =
           w\<lparr>existing := insert path (existing w),
             saved := saved w @ [(path, output_table (available_width env + 4) ps)]\<rparr>)) \<and>
   (input_file \<in> existing w \<and> document_paragraphs env input_file = Inr ps \<and>
    save_raises env (docx_path output_file) = None \<longrightarrow>
      fst (process_docx env input_file output_file w) = Inr (docx_path output_file))"
proof (intro conjI impI)
  assume r: "fst (process_docx env input_file output_file w) = Inr path"
  from process_docx_returns[OF r] have p: "path = docx_path output_file" by blast
  then show "path = (if str_endswith output_file ''.docx'' then output_file
                     else output_file @ ''.docx'')"
    by (simp add: docx_path_def)
  from p show "str_endswith path ''.docx''" by (simp add: docx_path_endswith)
  from process_docx_returns[OF r]
  show "\<exists>ps. document_paragraphs env input_file = Inr ps \<and>
         snd (process_docx env input_file output_file w) =
           w\<lparr>existing := insert path (existing w),
             saved := saved w @ [(path, output_table (available_width env + 4) ps)]\<rparr>"
    by blast
next
  assume a: "input_file \<in> existing w \<and> document_paragraphs env input_file = Inr ps \<and>
    save_raises env (docx_path output_file) = None"
  then have ex: "input_file \<in> existing w" and ps: "document_paragraphs env input_file = Inr ps"
    and sv: "save_raises env (docx_path output_file) = None"
    by blast+
  note process_docx_opened[OF ex ps, of output_file]
  with sv
  show "fst (process_docx env input_file output_file w) = Inr (docx_path output_file)"
    by simp
qed

theorem process_docx_saves_and_returns_docx_path_witness:
  "fst (process_docx
          \<lparr>document_paragraphs = (\<lambda>p. Inr [''JOHN: hi'']),
           save_raises = (\<lambda>p. None), available_width = 100\<rparr>
          ''in.docx'' ''out'' \<lparr>existing = {''in.docx''}, saved = []\<rparr>) = Inr ''out.docx'' \<and>
   str_endswith ''out.docx'' ''.docx'' \<and>
   (\<exists>ps. snd (process_docx
          \<lparr>document_paragraphs = (\<lambda>p. Inr [''JOHN: hi'']),
           save_raises = (\<lambda>p. None), available_width = 100\<rparr>
          ''in.docx'' ''out'' \<lparr>existing = {''in.docx''}, saved = []\<rparr>) =
      \<lparr>existing = {''in.docx''}, saved = []\<rparr>
        \<lparr>existing := insert ''out.docx'' (existing \<lparr>existing = {''in.docx''}, saved = []\<rparr>),
          saved := saved \<lparr>existing = {''in.docx''}, saved = []\<rparr> @
                     [(''out.docx'', output_table (100 + 4) ps)]\<rparr>)"
proof -
  let ?env = "\<lparr>document_paragraphs = (\<lambda>p. Inr [''JOHN: hi'']),
               save_raises = (\<lambda>p. None), available_width = 100\<rparr>"
  let ?w = "\<lparr>existing = {''in.docx''}, saved = []\<rparr>"
  have d: "docx_path ''out'' = ''out.docx''" by code_simp
  have aw: "available_width ?env = 100" by simp
  note t = process_docx_saves_and_returns_docx_path
     [of ?env "''in.docx''" "''out''" ?w "''out.docx''" "[''JOHN: hi'']", unfolded d aw]
  have "''in.docx'' \<in> existing ?w \<and>
        document_paragraphs ?env ''in.docx'' = Inr [''JOHN: hi''] \<and>
        save_raises ?env ''out.docx'' = None"
    by simp
  with t have r: "fst (process_docx ?env ''in.docx'' ''out'' ?w) = Inr ''out.docx''"
    by blast
  with t have "str_endswith ''out.docx'' ''.docx''"
    and "\<exists>ps. snd (process_docx ?env ''in.docx'' ''out'' ?w) =
      ?w\<lparr>existing := insert ''out.docx'' (existing ?w),
         saved := saved ?w @ [(''out.docx'', output_table (100 + 4) ps)]\<rparr>"
    by blast+
  with r show ?thesis by blast
qed

text \<open>
  C5, amended. \<open>process_docx\<close> raises \<open>FileNotFoundError\<close> whenever \<open>input_file\<close> does not
  exist, and then nothing has been opened or saved. When \<open>input_file\<close> exists, it raises
  exactly what the document library raises on opening the input or on saving the output,
  which may itself be a \<open>FileNotFoundError\<close>: nothing is caught, the missing-file check is the
  only error handling performed.
\<close>

theorem process_docx_errors:
  "(input_file \<notin> existing w \<longrightarrow>
      process_docx env input_file output_file w = (Inl FileNotFoundError, w)) \<and>
   (input_file \<in> existing w \<longrightarrow>
      (fst (process_docx env input_file output_file w) = Inl e \<longleftrightarrow>
         document_paragraphs env input_file = Inl e \<or>
         (\<exists>ps. document_paragraphs env input_file = Inr ps) \<and>
         save_raises env (docx_path output_file) = Some e))"
proof (intro conjI impI)
  assume "input_file \<notin> existing w"
  then show "process_docx env input_file output_file w = (Inl FileNotFoundError, w)"
    by (rule process_docx_missing)
next
  assume ex: "input_file \<in> existing w"
  show "fst (process_docx env input_file output_file w) = Inl e \<longleftrightarrow>
         document_paragraphs env input_file = Inl e \<or>
         (\<exists>ps. document_paragraphs env input_file = Inr ps) \<and>
         save_raises env (docx_path output_file) = Some e"
  proof (cases "document_paragraphs env input_file")
    case (Inl e')
    with ex show ?thesis by (simp add: process_docx_open_fails)
  next
    case (Inr ps)
    note process_docx_opened[OF ex Inr, of output_file]
    with Inr show ?thesis
      by (cases "save_raises env (docx_path output_file)") auto
  qed
qed

theorem process_docx_errors_witness:
  "''in.docx'' \<notin> existing \<lparr>existing = {}, saved = []\<rparr> \<and>
   process_docx
     \<lparr>document_paragraphs = (\<lambda>p. Inr []), save_raises = (\<lambda>p. None), available_width = 100\<rparr>
     ''in.docx'' ''out.docx'' \<lparr>existing = {}, saved = []\<rparr> =
     (Inl FileNotFoundError, \<lparr>existing = {}, saved = []\<rparr>) \<and>
   ''in.docx'' \<in> existing \<lparr>existing = {''in.docx''}, saved = []\<rparr> \<and>
   fst (process_docx
     \<lparr>document_paragraphs = (\<lambda>p. Inl (LibraryError ''PackageNotFoundError'')),
      save_raises = (\<lambda>p. None), available_width = 100\<rparr>
     ''in.docx'' ''out.docx'' \<lparr>existing = {''in.docx''}, saved = []\<rparr>) =
     Inl (LibraryError ''PackageNotFoundError'')"
proof -
  let ?env0 = "\<lparr>document_paragraphs = (\<lambda>p. Inr []), save_raises = (\<lambda>p. None),
                available_width = 100\<rparr>"
  let ?env1 = "\<lparr>document_paragraphs = (\<lambda>p. Inl (LibraryError ''PackageNotFoundError'')),
                save_raises = (\<lambda>p. None), available_width = 100\<rparr>"
  let ?w0 = "\<lparr>existing = {}, saved = []\<rparr>"
  let ?w1 = "\<lparr>existing = {''in.docx''}, saved = []\<rparr>"
  note t = process_docx_errors [of "''in.docx''" ?w0 ?env0 "''out.docx''" FileNotFoundError]
  note u = process_docx_errors
     [of "''in.docx''" ?w1 ?env1 "''out.docx''" "LibraryError ''PackageNotFoundError''"]
  have a: "''in.docx'' \<notin> existing ?w0" by simp
  with t have b: "process_docx ?env0 ''in.docx'' ''out.docx'' ?w0 = (Inl FileNotFoundError, ?w0)"
    by blast
  have c: "''in.docx'' \<in> existing ?w1" by simp
  have "document_paragraphs ?env1 ''in.docx'' = Inl (LibraryError ''PackageNotFoundError'')"
    by simp
  with u c have d: "fst (process_docx ?env1 ''in.docx'' ''out.docx'' ?w1) =
      Inl (LibraryError ''PackageNotFoundError'')"
    by blast
  from a b c d show ?thesis by blast
qed

text \<open>
  As first stated, C5 has \<open>FileNotFoundError\<close> raised only when the input file is missing.
  Here the input exists and the library cannot create the output file, its directory being
  absent: the \<open>FileNotFoundError\<close> of \<open>save\<close> leaves \<open>process_docx\<close> uncaught.
\<close>

theorem process_docx_save_error_counterexample:
  "''in.docx'' \<in> existing \<lparr>existing = {''in.docx''}, saved = []\<rparr> \<and>
   process_docx
     \<lparr>document_paragraphs = (\<lambda>p. Inr [''0:15 ----------'']),
      save_raises = (\<lambda>p. if prefix ''missing_dir/'' p then Some FileNotFoundError else None),
      available_width = 100\<rparr>
     ''in.docx'' ''missing_dir/out'' \<lparr>existing = {''in.docx''}, saved = []\<rparr> =
     (Inl FileNotFoundError, \<lparr>existing = {''in.docx''}, saved = []\<rparr>)"
proof -
  let ?env = "\<lparr>document_paragraphs = (\<lambda>p. Inr [''0:15 ----------'']),
      save_raises = (\<lambda>p. if prefix ''missing_dir/'' p then Some FileNotFoundError else None),
      available_width = 100\<rparr>"
  let ?w = "\<lparr>existing = {''in.docx''}, saved = []\<rparr>"
  have ex: "''in.docx'' \<in> existing ?w" by simp
  have ps: "document_paragraphs ?env ''in.docx'' = Inr [''0:15 ----------'']" by simp
  have d: "docx_path ''missing_dir/out'' = ''missing_dir/out.docx''" by code_simp
  have sv: "save_raises ?env ''missing_dir/out.docx'' = Some FileNotFoundError" by simp
  note process_docx_opened[OF ex ps, of "''missing_dir/out''"]
  then have "process_docx ?env ''in.docx'' ''missing_dir/out'' ?w = (Inl FileNotFoundError, ?w)"
    unfolding d sv by simp
  with ex show ?thesis by blast
qed

section \<open>Removal of the leading timecode\<close>

lemma str_join_Cons_nonempty: "qs \<noteq> [] \<Longrightarrow> str_join sep (q # qs) = q @ sep @ str_join sep qs"
  by (cases qs) simp_all

lemma str_join_Cons_char: "str_join sep ((c # q) # qs) = c # str_join sep (q # qs)"
  by (cases qs) simp_all

lemma not_sublist_butlast: "old \<noteq> [] \<Longrightarrow> \<not> sublist old (butlast old)"
proof
  assume "old \<noteq> []" and "sublist old (butlast old)"
  from sublist_length_le[OF this(2)] have "length old \<le> length (butlast old)" .
  moreover from \<open>old \<noteq> []\<close> have "length (butlast old) < length old" by simp
  ultimately show False by arith
qed

text \<open>
  What \<open>replace\<close> with an empty replacement does: the text is a list of pieces joined by
  \<open>old\<close>, each occurrence chosen being the leftmost one in what is left of the text, and the
  result is the pieces put together.
\<close>

lemma replace_scan_pieces:
  assumes old: "old \<noteq> []"
  shows "\<exists>pieces. pieces \<noteq> [] \<and> s = str_join old pieces \<and>
           replace_scan old [] s = concat pieces \<and>
           (\<forall>p\<in>set (butlast pieces). \<not> sublist old (p @ butlast old)) \<and>
           \<not> sublist old (last pieces)"
proof (induction "length s" arbitrary: s rule: less_induct)
  case less
  show ?case
  proof (cases s)
    case Nil
    have "[[]] \<noteq> [] \<and> s = str_join old [[]] \<and> replace_scan old [] s = concat [[]] \<and>
          (\<forall>p\<in>set (butlast [[]]). \<not> sublist old (p @ butlast old)) \<and>
          \<not> sublist old (last [[]])"
      using Nil old by simp
    then show ?thesis by (rule exI[of _ "[[]]"])
  next
    case (Cons c cs)
    show ?thesis
    proof (cases "prefix old (c # cs)")
      case True
      let ?rest = "drop (length old) (c # cs)"
      from True have s: "c # cs = old @ ?rest" by (auto simp: prefix_def)
      have "length ?rest < length s" using old Cons by (cases old) simp_all
      from less[OF this] obtain pieces where p: "pieces \<noteq> []" "?rest = str_join old pieces"
        "replace_scan old [] ?rest = concat pieces"
        "\<forall>p\<in>set (butlast pieces). \<not> sublist old (p @ butlast old)"
        "\<not> sublist old (last pieces)"
        by blast
      have j: "s = str_join old ([] # pieces)"
        using s p(2) Cons by (simp add: str_join_Cons_nonempty[OF p(1)])
      have r: "replace_scan old [] s = concat ([] # pieces)"
        using True old p(3) Cons by simp
      have b: "\<forall>q\<in>set (butlast ([] # pieces)). \<not> sublist old (q @ butlast old)"
        using p(1,4) not_sublist_butlast[OF old] by simp
      have l: "\<not> sublist old (last ([] # pieces))" using p(1,5) by simp
      from j r b l show ?thesis by (intro exI[of _ "[] # pieces"]) simp
    next
      case False
      have "length cs < length s" using Cons by simp
      from less[OF this] obtain pieces where p: "pieces \<noteq> []" "cs = str_join old pieces"
        "replace_scan old [] cs = concat pieces"
        "\<forall>p\<in>set (butlast pieces). \<not> sublist old (p @ butlast old)"
        "\<not> sublist old (last pieces)"
        by blast
      from p(1) obtain q qs where pq: "pieces = q # qs" by (cases pieces) simp_all
      have j: "s = str_join old ((c # q) # qs)"
        using p(2) Cons unfolding pq by (simp add: str_join_Cons_char)
      have r: "replace_scan old [] s = concat ((c # q) # qs)"
        using False p(3) Cons unfolding pq by simp
      have bl: "(\<forall>p\<in>set (butlast ((c # q) # qs)). \<not> sublist old (p @ butlast old)) \<and>
                \<not> sublist old (last ((c # q) # qs))"
      proof (cases "qs = []")
        case True
        with p(2) pq have "cs = q" by simp
        with p(5) pq True have "\<not> sublist old cs" by simp
        with False have "\<not> sublist old (c # q)"
          using \<open>cs = q\<close> by (simp add: sublist_Cons_right)
        with True show ?thesis by simp
      next
        case qne: False
        from p(4) pq qne have q: "\<not> sublist old (q @ butlast old)"
          and rest: "\<forall>p\<in>set (butlast qs). \<not> sublist old (p @ butlast old)"
          by simp_all
        have "cs = (q @ butlast old) @ ([last old] @ str_join old qs)"
          using p(2) pq old by (simp add: str_join_Cons_nonempty[OF qne])
        then have "prefix (c # q @ butlast old) (c # cs)" by (simp add: prefix_def)
        with False have "\<not> prefix old (c # q @ butlast old)"
          using prefix_order.trans by blast
        with q have "\<not> sublist old ((c # q) @ butlast old)"
          by (simp add: sublist_Cons_right)
        with rest qne p(5) pq show ?thesis by simp
      qed
      from j r bl show ?thesis by (intro exI[of _ "(c # q) # qs"]) simp
    qed
  qed
qed

lemma timecode_pattern_match_iff:
  "timecode_pattern_match text \<noteq> None \<longleftrightarrow> begins_with_timecode_token text"
proof
  assume "timecode_pattern_match text \<noteq> None"
  then obtain tc where "timecode_at None text = Some tc"
    by (auto simp: timecode_pattern_match_def)
  from timecode_at_sound[OF this] have f: "timecode_form tc" and p: "prefix tc text"
    and w: "\<not> word_after (drop (length tc) text)"
    by blast+
  from p have "text = tc @ drop (length tc) text" by (auto simp: prefix_def)
  with f w show "begins_with_timecode_token text"
    unfolding begins_with_timecode_token_def word_after_iff by blast
next
  assume "begins_with_timecode_token text"
  then obtain tc post where t: "text = tc @ post" "timecode_form tc"
    "post = [] \<or> \<not> is_word_char (hd post)"
    unfolding begins_with_timecode_token_def by blast
  have "timecode_at None (tc @ post) \<noteq> None"
    using t(2,3) by (intro timecode_at_complete[of _ tc]) (simp_all add: word_before_def word_after_iff)
  with t(1) show "timecode_pattern_match text \<noteq> None"
    by (simp add: timecode_pattern_match_def)
qed

lemma remove_timecode_pieces:
  assumes "timecode_pattern_match text = Some tc"
  shows "timecode_form tc \<and> prefix tc text \<and>
         (\<exists>pieces. pieces \<noteq> [] \<and> text = str_join tc pieces \<and>
            (\<forall>p\<in>set (butlast pieces). \<not> sublist tc (p @ butlast tc)) \<and>
            \<not> sublist tc (last pieces) \<and>
            remove_timecode text = str_strip (concat pieces))"
proof -
  from assms have "timecode_at None text = Some tc" by (simp add: timecode_pattern_match_def)
  from timecode_at_sound[OF this] have f: "timecode_form tc" and p: "prefix tc text"
    by blast+
  from f have ne: "tc \<noteq> []" by (rule timecode_form_ends)
  from replace_scan_pieces[OF ne, of "text"] obtain pieces where
    ps: "pieces \<noteq> []" "text = str_join tc pieces" "replace_scan tc [] text = concat pieces"
        "\<forall>p\<in>set (butlast pieces). \<not> sublist tc (p @ butlast tc)"
        "\<not> sublist tc (last pieces)"
    by blast
  from assms ne ps(3) have "remove_timecode text = str_strip (concat pieces)"
    by (simp add: remove_timecode_def str_replace_def)
  with f p ps(1,2,4,5) show ?thesis by blast
qed


text \<open>
  C9. A non-marker line begins with a timecode token exactly when \<open>timecode_pattern\<close> matches
  at its start. Then every occurrence of the matched timecode, found from the left as
  \<open>str.replace\<close> finds them, is removed, wherever in the line it stands: the line is a list
  of pieces joined by the timecode, and what goes on to speaker classification is the pieces
  put together and stripped. A line that does not begin with a timecode token is left unchanged.
\<close>

theorem leading_timecode_removed_everywhere:
  "(timecode_pattern_match text \<noteq> None \<longleftrightarrow> begins_with_timecode_token text) \<and>
   (timecode_pattern_match text = Some tc \<longrightarrow>
      timecode_form tc \<and> prefix tc text \<and>
      (\<exists>pieces. pieces \<noteq> [] \<and> text = str_join tc pieces \<and>
         (\<forall>p\<in>set (butlast pieces). \<not> sublist tc (p @ butlast tc)) \<and>
         \<not> sublist tc (last pieces) \<and>
         remove_timecode text = str_strip (concat pieces))) \<and>
   (\<not> begins_with_timecode_token text \<longrightarrow> remove_timecode text = text)"
proof (intro conjI impI)
  show "timecode_pattern_match text \<noteq> None \<longleftrightarrow> begins_with_timecode_token text"
    by (rule timecode_pattern_match_iff)
next
  assume m: "timecode_pattern_match text = Some tc"
  from remove_timecode_pieces[OF m] show "timecode_form tc" by blast
  from remove_timecode_pieces[OF m] show "prefix tc text" by blast
  from remove_timecode_pieces[OF m]
  show "\<exists>pieces. pieces \<noteq> [] \<and> text = str_join tc pieces \<and>
         (\<forall>p\<in>set (butlast pieces). \<not> sublist tc (p @ butlast tc)) \<and>
         \<not> sublist tc (last pieces) \<and>
         remove_timecode text = str_strip (concat pieces)"
    by blast
next
  assume "\<not> begins_with_timecode_token text"
  then have "timecode_pattern_match text = None"
    using timecode_pattern_match_iff[of "text"] by simp
  then show "remove_timecode text = text" by (simp add: remove_timecode_def)
qed

theorem leading_timecode_removed_everywhere_witness:
  "timecode_pattern_match ''0:15 JOHN: at 0:15 x'' = Some ''0:15'' \<and>
   begins_with_timecode_token ''0:15 JOHN: at 0:15 x'' \<and>
   timecode_form ''0:15'' \<and>
   remove_timecode ''0:15 JOHN: at 0:15 x'' = ''JOHN: at  x'' \<and>
   (\<exists>pieces. ''0:15 JOHN: at 0:15 x'' = str_join ''0:15'' pieces \<and>
      remove_timecode ''0:15 JOHN: at 0:15 x'' = str_strip (concat pieces)) \<and>
   \<not> begins_with_timecode_token ''JOHN: 0:15'' \<and>
   remove_timecode ''JOHN: 0:15'' = ''JOHN: 0:15''"
proof -
  let ?a = "''0:15 JOHN: at 0:15 x''"
  let ?b = "''JOHN: 0:15''"
  have m: "timecode_pattern_match ?a = Some ''0:15''" by code_simp
  have n: "timecode_pattern_match ?b = None" by code_simp
  have r: "remove_timecode ?a = ''JOHN: at  x''" by code_simp
  note t = leading_timecode_removed_everywhere [of ?a "''0:15''"]
  note u = leading_timecode_removed_everywhere [of ?b "''0:15''"]
  from t m have a: "begins_with_timecode_token ?a" by simp
  from t m have b: "timecode_form ''0:15''" by blast
  from t m have c: "\<exists>pieces. ?a = str_join ''0:15'' pieces \<and>
      remove_timecode ?a = str_strip (concat pieces)"
    by blast
  from u n have d: "\<not> begins_with_timecode_token ?b" by simp
  with u have e: "remove_timecode ?b = ?b" by blast
  from m a b r c d e show ?thesis by blast
qed

section \<open>Speaker lines\<close>

lemma is_upper_not_space: "is_upper c \<Longrightarrow> \<not> is_space c"
  by (simp add: is_upper_def is_space_def Let_def)

lemma colon_not_space: "\<not> is_space CHR '':''"
  by (simp add: is_space_def)

lemma str_strip_last: "str_strip y \<noteq> [] \<Longrightarrow> \<not> is_space (last (str_strip y))"
proof -
  let ?d = "dropWhile is_space (rev (dropWhile is_space y))"
  assume "str_strip y \<noteq> []"
  then have d: "?d \<noteq> []" by (simp add: str_strip_def)
  then have "\<not> is_space (hd ?d)" by (rule hd_dropWhile)
  moreover from d have "last (rev ?d) = hd ?d" by (simp add: last_rev)
  ultimately show ?thesis by (simp add: str_strip_def)
qed

lemma str_strip_keeps_nonspace:
  assumes "\<exists>c\<in>set x. \<not> is_space c"
  shows "str_strip x \<noteq> []"
proof -
  from assms obtain c where c: "c \<in> set x" "\<not> is_space c" by blast
  let ?a = "dropWhile is_space x"
  have "x = takeWhile is_space x @ ?a" by simp
  then have "set x = set (takeWhile is_space x) \<union> set ?a" by (metis set_append)
  moreover have "c \<notin> set (takeWhile is_space x)" using c(2) by (auto dest: set_takeWhileD)
  ultimately have "c \<in> set (rev ?a)" using c(1) by simp
  with c(2) have "dropWhile is_space (rev ?a) \<noteq> []"
    unfolding dropWhile_eq_Nil_conv by blast
  then show ?thesis by (simp add: str_strip_def)
qed

text \<open>
  The shape of a text that \<open>speaker_pattern\<close> matches: uppercase letters, a colon or not, a
  whitespace character, and the rest; its first word is the letters with the colon.
\<close>

lemma speaker_match_shape:
  assumes "speaker_pattern_match s"
  shows "\<exists>u k d r. u \<noteq> [] \<and> list_all is_upper u \<and> (k = [] \<or> k = '':'') \<and> is_space d \<and>
           s = u @ k @ d # r \<and> str_split s = (u @ k) # str_split r"
proof -
  let ?u = "takeWhile is_upper s"
  let ?t = "dropWhile is_upper s"
  from assms have u: "?u \<noteq> []" by (simp add: speaker_pattern_match_def)
  have up: "list_all is_upper ?u" by (auto simp: list_all_iff dest: set_takeWhileD)
  have s: "s = ?u @ ?t" by simp
  from assms obtain k d r where k: "k = [] \<or> k = '':''" and d: "is_space d"
    and t: "?t = k @ d # r"
  proof (cases ?t)
    case Nil
    with assms show ?thesis by (simp add: speaker_pattern_match_def)
  next
    case (Cons c rest)
    show ?thesis
    proof (cases "c = CHR '':''")
      case True
      with assms Cons obtain d r where "rest = d # r" "is_space d"
        by (cases rest) (simp_all add: speaker_pattern_match_def)
      with Cons True that[of "'':''" d r] show ?thesis by simp
    next
      case False
      with assms Cons have "is_space c" by (simp add: speaker_pattern_match_def)
      with Cons that[of "[]" c rest] show ?thesis by simp
    qed
  qed
  have nos: "\<forall>c\<in>set (?u @ k). \<not> is_space c"
    using up k by (auto simp: list_all_iff is_upper_not_space colon_not_space)
  have "split_scan [] ((?u @ k) @ d # r) = split_scan ([] @ (?u @ k)) (d # r)"
    using nos by (rule split_scan_nospace)
  also have "\<dots> = (?u @ k) # split_scan [] r" using u d by simp
  finally have "str_split ((?u @ k) @ d # r) = (?u @ k) # str_split r"
    by (simp add: str_split_def)
  moreover have "s = ?u @ k @ d # r" using s t by simp
  ultimately have "str_split s = (?u @ k) # str_split r" by simp
  with u up k d \<open>s = ?u @ k @ d # r\<close> show ?thesis by blast
qed

lemma speaker_match_begins_with_token:
  assumes "speaker_pattern_match s"
  shows "begins_with_speaker_token s"
proof -
  from speaker_match_shape[OF assms] obtain u k r where
    "u \<noteq> []" "list_all is_upper u" "k = [] \<or> k = '':''" "str_split s = (u @ k) # str_split r"
    by blast
  then show ?thesis
    unfolding begins_with_speaker_token_def speaker_token_def by auto
qed

text \<open>
  The branch of \<open>process_docx\<close> headed "Handle speaker-only lines" is never taken: the text
  is stripped before \<open>speaker_pattern\<close> is tried, so the whitespace that the pattern asks for
  after the speaker is followed by another word, and the content is not empty.
\<close>

lemma speaker_content_nonempty:
  assumes "speaker_pattern_match (str_strip y)"
  shows "str_strip (str_join '' '' (tl (str_split (str_strip y)))) \<noteq> []"
proof -
  let ?s = "str_strip y"
  from speaker_match_shape[OF assms] obtain u k d r where
    d: "is_space d" and s: "?s = u @ k @ d # r" and sp: "str_split ?s = (u @ k) # str_split r"
    by blast
  from s have ne: "?s \<noteq> []" by simp
  from str_strip_last[OF ne] s d have "r \<noteq> []" by (cases "r = []") simp_all
  with s have "last ?s = last r" by simp
  with str_strip_last[OF ne] \<open>r \<noteq> []\<close> have "\<exists>c\<in>set r. \<not> is_space c"
    using last_in_set by metis
  then have rne: "str_split r \<noteq> []" unfolding str_split_def by (simp add: split_scan_nonempty)
  then obtain w ws where ws: "str_split r = w # ws" by (cases "str_split r") simp_all
  have "is_word_str w" using str_split_words[of r] ws by simp
  then obtain c where c: "c \<in> set w" "\<not> is_space c"
    unfolding is_word_str_def by (cases w) auto
  have "c \<in> set (str_join '' '' (w # ws))" using c(1) by (cases ws) simp_all
  with c(2) have "str_strip (str_join '' '' (w # ws)) \<noteq> []"
    by (intro str_strip_keeps_nonspace) blast
  with sp ws show ?thesis by simp
qed

lemma remove_timecode_stripped: "\<exists>y. remove_timecode (str_strip x) = str_strip y"
  by (cases "timecode_pattern_match (str_strip x)") (auto simp: remove_timecode_def)

lemma speaker_line_has_content:
  assumes "classify (str_strip para_text) = SpeakerLine"
  shows "str_strip (str_join '' '' (tl (str_split (remove_timecode (str_strip para_text))))) \<noteq> []"
proof -
  from assms have m: "speaker_pattern_match (remove_timecode (str_strip para_text))"
    by (simp add: classify_def split: if_splits)
  obtain y where y: "remove_timecode (str_strip para_text) = str_strip y"
    using remove_timecode_stripped by blast
  from m show ?thesis unfolding y by (rule speaker_content_nonempty)
qed

lemma split_scan_spaces: "\<forall>c\<in>set b. is_space c \<Longrightarrow> split_scan [] b = []"
  by (induction b) simp_all

lemma split_scan_trailing:
  "\<forall>c\<in>set b. is_space c \<Longrightarrow> split_scan cur (a @ b) = split_scan cur a"
proof (induction a arbitrary: cur)
  case Nil
  then show ?case by (cases b) (simp_all add: split_scan_spaces)
next
  case (Cons c a)
  then show ?case by simp
qed

lemma split_scan_leading: "split_scan [] (dropWhile is_space x) = split_scan [] x"
  by (induction x) simp_all

lemma str_split_strip: "str_split (str_strip x) = str_split x"
proof -
  let ?a = "dropWhile is_space x"
  have "?a = rev (dropWhile is_space (rev ?a)) @ rev (takeWhile is_space (rev ?a))"
    by (metis rev_append rev_rev_ident takeWhile_dropWhile_id)
  moreover have "\<forall>c\<in>set (rev (takeWhile is_space (rev ?a))). is_space c"
    by (auto dest: set_takeWhileD)
  ultimately have "split_scan [] ?a = split_scan [] (rev (dropWhile is_space (rev ?a)))"
    using split_scan_trailing by metis
  then show ?thesis by (simp add: str_split_def str_strip_def split_scan_leading)
qed

lemma wrap_words_lines_nonempty:
  "\<forall>w\<in>set words. w \<noteq> [] \<Longrightarrow> \<forall>w\<in>set current_line. w \<noteq> [] \<Longrightarrow> \<forall>l\<in>set lines. l \<noteq> [] \<Longrightarrow>
   \<forall>l\<in>set (wrap_words m words lines current_line n). l \<noteq> []"
proof (induction words arbitrary: lines current_line n)
  case Nil
  then show ?case by (simp add: str_join_nonempty)
next
  case (Cons w words)
  show ?case
  proof (cases "n + int (length w) + (if n > 0 then 1 else 0) \<le> m")
    case True
    have "\<forall>l\<in>set (wrap_words m words lines (current_line @ [w])
                    (n + int (length w) + (if n > 0 then 1 else 0))). l \<noteq> []"
      using Cons.prems by (intro Cons.IH) simp_all
    with True show ?thesis by simp
  next
    case False
    have "\<forall>l\<in>set (wrap_words m words
                    (if current_line \<noteq> [] then lines @ [str_join '' '' current_line] else lines)
                    [w] (int (length w))). l \<noteq> []"
      using Cons.prems by (intro Cons.IH) (simp_all add: str_join_nonempty)
    with False show ?thesis by simp
  qed
qed

lemma str_rstrip_speaker:
  assumes "u \<noteq> []" and "list_all is_upper u" and "k = [] \<or> k = '':''"
  shows "str_rstrip '':'' (u @ k) = u"
proof -
  from assms(1) have "last u \<in> set u" by simp
  with assms(2) have "is_upper (last u)" by (simp add: list_all_iff)
  then have ne: "last u \<noteq> CHR '':''" by (auto simp: is_upper_def)
  from assms(1) obtain v where v: "rev u = last u # v" by (cases u rule: rev_cases) simp_all
  have "dropWhile (\<lambda>c. c \<in> set '':'') (rev u) = rev u" using ne unfolding v by simp
  then have a: "str_rstrip '':'' u = u" by (simp add: str_rstrip_def)
  from assms(3) show ?thesis
  proof
    assume "k = []"
    with a show ?thesis by simp
  next
    assume "k = '':''"
    then have "str_rstrip '':'' (u @ k) = str_rstrip '':'' u" by (simp add: str_rstrip_def)
    with a show ?thesis by simp
  qed
qed

text \<open>
  A line that \<open>speaker_pattern\<close> matches puts its first word, without the colon, in the
  speaker cell of one row, and wraps its other words at \<open>MAX_LINE_LENGTH\<close> into the content
  cells of that row and of the rows that follow.
\<close>

lemma speaker_line_columns:
  assumes "speaker_pattern_match (str_strip y)"
  shows "\<exists>u k l ls. u \<noteq> [] \<and> list_all is_upper u \<and> (k = [] \<or> k = '':'') \<and>
           hd (str_split (str_strip y)) = u @ k \<and>
           wrap_words MAX_LINE_LENGTH (tl (str_split (str_strip y))) [] [] 0 = l # ls \<and>
           handle_speaker st (str_strip y) =
             Inr (st\<lparr>table := table st @
                    SplitRow (Some (u, Some (RGBColor 255 0 0))) (Some l) #
                    map (\<lambda>x. SplitRow None (Some x)) ls\<rparr>)"
proof -
  let ?s = "str_strip y"
  let ?ws = "tl (str_split ?s)"
  let ?content = "str_strip (str_join '' '' ?ws)"
  from speaker_match_shape[OF assms] obtain u k r where
    u: "u \<noteq> []" "list_all is_upper u" "k = [] \<or> k = '':''"
    and sp: "str_split ?s = (u @ k) # str_split r"
    by blast
  have cne: "?content \<noteq> []" using assms by (rule speaker_content_nonempty)
  then have wne: "?ws \<noteq> []" by (cases "?ws = []") (simp_all add: str_strip_def)
  have words: "\<forall>w\<in>set ?ws. is_word_str w"
    using str_split_words[of ?s] sp by simp
  have "str_split ?content = str_split (str_join '' '' ?ws)" by (rule str_split_strip)
  also have "\<dots> = ?ws" using wne words by (rule str_split_join)
  finally have sc: "str_split ?content = ?ws" .
  have lines: "split_text_into_lines ?content MAX_LINE_LENGTH =
                 wrap_words MAX_LINE_LENGTH ?ws [] [] 0"
    by (simp add: split_text_into_lines_def sc)
  have "wrap_words MAX_LINE_LENGTH ?ws [] [] 0 \<noteq> []"
    using wne by (intro wrap_words_nonempty) simp
  then obtain l ls where l: "wrap_words MAX_LINE_LENGTH ?ws [] [] 0 = l # ls"
    by (cases "wrap_words MAX_LINE_LENGTH ?ws [] [] 0") simp_all
  have "\<forall>x\<in>set (wrap_words MAX_LINE_LENGTH ?ws [] [] 0). x \<noteq> []"
    using words by (intro wrap_words_lines_nonempty) (simp_all add: is_word_str_def)
  then have lne: "l \<noteq> []" and lsne: "\<forall>x\<in>set ls. x \<noteq> []" unfolding l by simp_all
  have spk: "str_rstrip '':'' (hd (str_split ?s)) = u"
    unfolding sp using u by (simp add: str_rstrip_speaker)
  have m: "map (\<lambda>l. SplitRow None (if l \<noteq> [] then Some l else None)) ls =
           map (\<lambda>x. SplitRow None (Some x)) ls"
    using lsne by simp
  have "handle_speaker st ?s =
          Inr (st\<lparr>table := table st @
                 SplitRow (Some (u, Some (RGBColor 255 0 0))) (Some l) #
                 map (\<lambda>x. SplitRow None (Some x)) ls\<rparr>)"
    unfolding handle_speaker_def Let_def foldl_add_split_content lines l spk
    using cne sp u(1) lne m by (simp add: add_split_content_def)
  moreover have "hd (str_split ?s) = u @ k" using sp by simp
  ultimately show ?thesis using u l by blast
qed


section \<open>Claim on speaker lines\<close>

text \<open>
  C4 has a line treated as a speaker line whenever it begins with an uppercase token,
  optionally followed by a colon, its first word going into the speaker column. The paragraph
  \<open>JOHN:\<close>, a speaker with nothing said, begins with such a token, yet \<open>speaker_pattern\<close>
  does not match it: the pattern asks for whitespace after the speaker and the text has been
  stripped. The line is handled as a plain line and \<open>JOHN:\<close> lands in the content column.
\<close>

theorem speaker_only_line_treated_as_plain:
  "begins_with_speaker_token (str_strip ''JOHN:'') \<and>
   \<not> speaker_pattern_match (remove_timecode (str_strip ''JOHN:'')) \<and>
   classify (str_strip ''JOHN:'') = PlainLine \<and>
   process_paragraph 104 \<lparr>segment_count = 1, skip_pages = False, table = []\<rparr> ''JOHN:'' =
     Inr \<lparr>segment_count = 1, skip_pages = False, table = [SplitRow None (Some ''JOHN:'')]\<rparr> \<and>
   process_paragraph 104 \<lparr>segment_count = 1, skip_pages = False, table = []\<rparr> ''JOHN: hi'' =
     Inr \<lparr>segment_count = 1, skip_pages = False,
          table = [SplitRow (Some (''JOHN'', Some (RGBColor 255 0 0))) (Some ''hi'')]\<rparr>"
proof -
  have s: "str_split (str_strip ''JOHN:'') = [''JOHN:'']" by code_simp
  have "''JOHN'' \<noteq> [] \<and> list_all is_upper ''JOHN'' \<and>
        (''JOHN:'' = ''JOHN'' \<or> ''JOHN:'' = ''JOHN'' @ '':'')"
    by code_simp
  then have "speaker_token ''JOHN:''" unfolding speaker_token_def by (rule exI[of _ "''JOHN''"])
  then have a: "begins_with_speaker_token (str_strip ''JOHN:'')"
    unfolding begins_with_speaker_token_def s by simp
  have b: "\<not> speaker_pattern_match (remove_timecode (str_strip ''JOHN:''))" by code_simp
  have c: "classify (str_strip ''JOHN:'') = PlainLine" by code_simp
  have d: "process_paragraph 104 \<lparr>segment_count = 1, skip_pages = False, table = []\<rparr> ''JOHN:'' =
     Inr \<lparr>segment_count = 1, skip_pages = False, table = [SplitRow None (Some ''JOHN:'')]\<rparr>"
    by code_simp
  have e: "process_paragraph 104 \<lparr>segment_count = 1, skip_pages = False, table = []\<rparr> ''JOHN: hi'' =
     Inr \<lparr>segment_count = 1, skip_pages = False,
          table = [SplitRow (Some (''JOHN'', Some (RGBColor 255 0 0))) (Some ''hi'')]\<rparr>"
    by code_simp
  from a b c d e show ?thesis by blast
qed

end
